theory Spec2Isabelle
  imports Main "HOL-Library.Sublist"
begin

section \<open>JavaScript strings\<close>

text \<open>
  Paths and messages are JavaScript strings; they are modelled as HOL strings (character
  lists). \<open>endsWith\<close> is \<^verbatim>\<open>String.prototype.endsWith\<close> and \<open>includes_js\<close> is
  \<^verbatim>\<open>String.prototype.includes\<close> (a substring test at any position).
\<close>

definition endsWith :: "string \<Rightarrow> string \<Rightarrow> bool" where
  "endsWith s t = (length t \<le> length s \<and> drop (length s - length t) s = t)"

fun includes_js :: "string \<Rightarrow> string \<Rightarrow> bool" where
  "includes_js [] t = (t = [])"
| "includes_js (c # cs) t = (take (length t) (c # cs) = t \<or> includes_js cs t)"

text \<open>
  \<^verbatim>\<open>/index\.(css|js|ts)$/.test(path)\<close>: the search tries every start position, and the
  match has to consume \<^verbatim>\<open>index.\<close>, one of the three alternatives, and then reach the end
  of the input.
\<close>

fun regex_index_test :: "string \<Rightarrow> bool" where
  "regex_index_test [] = False"
| "regex_index_test (c # cs) =
     (c # cs \<in> set [''index.css'', ''index.js'', ''index.ts''] \<or> regex_index_test cs)"

text \<open>
  The base name of a path (the part after the last separator). The source never computes
  it; it is the notion the specification of discovery speaks about.
\<close>

definition basename :: "string \<Rightarrow> string" where
  "basename p = rev (takeWhile (\<lambda>c. c \<noteq> CHR ''/'') (rev p))"

section \<open>Errors\<close>

text \<open>
  Every rejection and exception of the source is a value: a file-system call that rejects,
  a bundler build that rejects, \<^verbatim>\<open>JSON.parse\<close> throwing a SyntaxError, a TypeError
  (destructuring \<^verbatim>\<open>null\<close>, spreading \<^verbatim>\<open>undefined\<close>), and the RangeError of
  \<^verbatim>\<open>toFixed\<close>.
\<close>

datatype error = FsError | BuildError | SyntaxError | TypeError | RangeError

section \<open>formatBytes\<close>

text \<open>
  The first argument of \<^verbatim>\<open>formatBytes(bytes, decimals = 2)\<close>: a number that is a
  non-negative integer (the byte counts the bundler reports), or one of the other values
  JavaScript takes as false in a condition. A negative or fractional number, a value that
  is neither a number nor falsy, and a BigInt (on which the unary plus throws) are not
  sizes and are not represented. \<open>to_number\<close> is the unary plus; \<open>None\<close> is its \<^verbatim>\<open>NaN\<close>.
\<close>

datatype js_value = JsNumber nat | JsNaN | JsUndefined | JsNull | JsFalse | JsEmptyString

fun to_number :: "js_value \<Rightarrow> nat option" where
  "to_number (JsNumber n) = Some n"
| "to_number JsNaN = None"
| "to_number JsUndefined = None"
| "to_number JsNull = Some 0"
| "to_number JsFalse = Some 0"
| "to_number JsEmptyString = Some 0"

text \<open>
  The arithmetic is written out exactly on integers:
  \<^item> \<open>log_floor k n\<close> is \<^verbatim>\<open>Math.floor(Math.log(n) / Math.log(k))\<close>;
  \<^item> \<open>toFixed num den dm\<close> is \<^verbatim>\<open>(num / den).toFixed(dm)\<close>: a RangeError for more than
    100 digits, otherwise \<open>fixed_digits\<close>, the integer \<open>n\<close> for which \<open>n / 10 ^ dm\<close> is nearest
    to the quotient (the larger one on a tie) printed with \<open>dm\<close> fraction digits;
  \<^item> \<open>number_string\<close> is the template literal applied to \<^verbatim>\<open>parseFloat\<close> of that string: the
    shortest decimal numeral, which drops the trailing zeros of the fraction and a
    trailing point.

  The source computes on IEEE doubles, and the integer model is the source only on part of
  its domain. Division by a power of 1024 is exact on doubles for every byte count below
  \<open>2 ^ 53\<close>. The quotient of the two logarithms is rounded: it floors to the integer
  logarithm for every byte count below \<open>2 ^ 50 - 3\<close>, and no longer at \<open>2 ^ 50 - 3\<close>,
  \<open>2 ^ 50 - 2\<close> and \<open>2 ^ 50 - 1\<close>, where the doubles give 5 and \<open>log_floor\<close> gives 4. A numeral
  of at most fifteen digits survives \<^verbatim>\<open>parseFloat\<close> and printing unchanged, which covers up
  to eleven decimals; with more decimals the source prints the shortest numeral of the
  nearest double, which \<open>number_string\<close> does not compute. The statements below stay
  inside these bounds.
\<close>

definition sizes :: "string list" where
  "sizes = [''Bytes'', ''KiB'', ''MiB'', ''GiB'', ''TiB'', ''PiB'', ''EiB'', ''ZiB'', ''YiB'']"

fun log_floor :: "nat \<Rightarrow> nat \<Rightarrow> nat" where
  "log_floor k n = (if n < k \<or> k < 2 then 0 else Suc (log_floor k (n div k)))"

declare log_floor.simps [simp del]

fun show_nat :: "nat \<Rightarrow> string" where
  "show_nat n =
     (if n < 10 then [''0123456789'' ! n]
      else show_nat (n div 10) @ [''0123456789'' ! (n mod 10)])"

declare show_nat.simps [simp del]

definition fixed_digits :: "nat \<Rightarrow> nat \<Rightarrow> nat \<Rightarrow> string" where
  "fixed_digits num den dm =
     (let n = (2 * num * 10 ^ dm + den) div (2 * den);
          whole = show_nat (n div 10 ^ dm);
          frac = show_nat (n mod 10 ^ dm)
      in if dm = 0 then whole
         else whole @ ''.'' @ replicate (dm - length frac) (CHR ''0'') @ frac)"

definition toFixed :: "nat \<Rightarrow> nat \<Rightarrow> nat \<Rightarrow> error + string" where
  "toFixed num den dm = (if 100 < dm then Inl RangeError else Inr (fixed_digits num den dm))"

definition number_string :: "string \<Rightarrow> string" where
  "number_string s =
     (if CHR ''.'' \<in> set s
      then (case dropWhile (\<lambda>c. c = CHR ''0'') (rev s) of
              [] \<Rightarrow> []
            | c # cs \<Rightarrow> if c = CHR ''.'' then rev cs else rev (c # cs))
      else s)"

definition formatBytes :: "js_value \<Rightarrow> int option \<Rightarrow> error + string" where
  "formatBytes bytes decimals_arg =
     (let decimals = (case decimals_arg of None \<Rightarrow> 2 | Some d \<Rightarrow> d) in
      case to_number bytes of
        None \<Rightarrow> Inr ''0 Bytes''
      | Some n \<Rightarrow>
          if n = 0 then Inr ''0 Bytes''
          else
            let k = 1024;
                dm = (if decimals < 0 then 0 else nat decimals);
                i = log_floor k n
            in case toFixed n (k ^ i) dm of
                 Inl e \<Rightarrow> Inl e
               | Inr fixed \<Rightarrow>
                   Inr (number_string fixed @ '' '' @
                        (if i < length sizes then sizes ! i else ''undefined'')))"




section \<open>Entry point discovery\<close>

text \<open>
  What lies at the directory handed to \<^verbatim>\<open>findFilesRecursively\<close>: a file, a directory
  with its entries in the order \<^verbatim>\<open>readdir\<close> lists them, or a node on which \<^verbatim>\<open>stat\<close>
  (or \<^verbatim>\<open>readdir\<close>, for the root) rejects. A finite tree: a symbolic link that closes a
  cycle, on which the source would not return, is not represented.
\<close>

datatype fsnode = File | Dir "(string \<times> fsnode) list" | Unreadable

text \<open>
  \<^verbatim>\<open>path.join\<close> of two arguments, as the POSIX implementation of Node has it: the
  non-empty arguments are joined with a separator and the result is normalised.
  \<open>split_path\<close> cuts a path at its separators. \<open>normalizeString\<close> walks the segments with
  the segments kept so far: an empty segment and \<^verbatim>\<open>.\<close> are skipped; \<^verbatim>\<open>..\<close> removes the
  last kept segment, unless there is none or it is \<^verbatim>\<open>..\<close> itself, in which case \<^verbatim>\<open>..\<close>
  is kept when the path is relative.
\<close>

fun split_path :: "string \<Rightarrow> string list" where
  "split_path [] = [] # []"
| "split_path (c # cs) =
     (if c = CHR ''/'' then [] # split_path cs
      else case split_path cs of
             [] \<Rightarrow> [c] # []
           | seg # segs \<Rightarrow> (c # seg) # segs)"

fun normalizeString :: "bool \<Rightarrow> string list \<Rightarrow> string list \<Rightarrow> string list" where
  "normalizeString allowAboveRoot [] res = res"
| "normalizeString allowAboveRoot (seg # segs) res =
     (if seg = [] \<or> seg = ''.'' then normalizeString allowAboveRoot segs res
      else if seg = ''..'' then
        (if res \<noteq> [] \<and> last res \<noteq> ''..''
         then normalizeString allowAboveRoot segs (butlast res)
         else if allowAboveRoot then normalizeString allowAboveRoot segs (res @ [''..''])
         else normalizeString allowAboveRoot segs res)
      else normalizeString allowAboveRoot segs (res @ [seg]))"

fun join_segments :: "string list \<Rightarrow> string" where
  "join_segments [] = []"
| "join_segments [seg] = seg"
| "join_segments (seg # segs) = seg @ ''/'' @ join_segments segs"

definition normalize :: "string \<Rightarrow> string" where
  "normalize path =
     (if path = [] then ''.''
      else
        let isAbsolute = (hd path = CHR ''/'');
            trailingSeparator = (last path = CHR ''/'');
            p = join_segments (normalizeString (\<not> isAbsolute) (split_path path) [])
        in if p = [] then (if isAbsolute then ''/'' else if trailingSeparator then ''./'' else ''.'')
           else (if isAbsolute then ''/'' else []) @ p @ (if trailingSeparator then ''/'' else []))"

definition join :: "string \<Rightarrow> string \<Rightarrow> string" where
  "join dir entry =
     (let joined = join_segments (filter (\<lambda>arg. arg \<noteq> []) [dir, entry])
      in if joined = [] then ''.'' else normalize joined)"

text \<open>
  \<open>traverseDirectory\<close> with the array \<open>files\<close> it pushes to passed along;
  \<open>traverseEntries\<close> is its \<^verbatim>\<open>for\<close> loop over the entries.
\<close>

fun traverseDirectory :: "string \<Rightarrow> fsnode \<Rightarrow> string list \<Rightarrow> error + string list"
and traverseEntries :: "string \<Rightarrow> (string \<times> fsnode) list \<Rightarrow> string list \<Rightarrow> error + string list"
where
  "traverseDirectory dir (Dir entries) files = traverseEntries dir entries files"
| "traverseDirectory dir File files = Inl FsError"
| "traverseDirectory dir Unreadable files = Inl FsError"
| "traverseEntries dir [] files = Inr files"
| "traverseEntries dir ((entry, node) # rest) files =
     (let fullPath = join dir entry in
      case node of
        Unreadable \<Rightarrow> Inl FsError
      | Dir sub \<Rightarrow>
          (case traverseDirectory fullPath node files of
             Inl e \<Rightarrow> Inl e
           | Inr files' \<Rightarrow> traverseEntries dir rest files')
      | File \<Rightarrow> traverseEntries dir rest (files @ [fullPath]))"

definition findFilesRecursively :: "fsnode \<Rightarrow> string \<Rightarrow> error + string list" where
  "findFilesRecursively fs directory = traverseDirectory directory fs []"

text \<open>The predicate of the \<^verbatim>\<open>filter\<close> in \<^verbatim>\<open>findEntryPoints\<close>; \<open>file\<close> is the full path.\<close>

definition is_entry_point :: "string list \<Rightarrow> string \<Rightarrow> bool" where
  "is_entry_point exts file =
     (includes_js file ''index'' \<and> list_ex (\<lambda>ext. endsWith file ext) exts)"

text \<open>\<open>None\<close> is the \<^verbatim>\<open>undefined\<close> returned after the \<^verbatim>\<open>catch\<close> has logged the error.\<close>

definition findEntryPoints :: "fsnode \<Rightarrow> string \<Rightarrow> string list \<Rightarrow> string list option" where
  "findEntryPoints fs entryPointPath exts =
     (let directory = entryPointPath in
      case findFilesRecursively fs directory of
        Inr files \<Rightarrow> Some (filter (is_entry_point exts) files)
      | Inl err \<Rightarrow> None)"

section \<open>JSON values and the site session\<close>

text \<open>
  A value \<^verbatim>\<open>JSON.parse\<close> returns. A number is kept as an integer: only whether it is zero
  matters below. In an object a later duplicate key overrides an earlier one. A property
  read is \<open>json option\<close>, \<open>None\<close> being \<^verbatim>\<open>undefined\<close>.
\<close>

datatype json = JNull | JBool bool | JNum int | JStr string | JArr "json list"
  | JObj "(string \<times> json) list"

fun get_prop :: "json \<Rightarrow> string \<Rightarrow> json option" where
  "get_prop (JObj kvs) key = map_of (rev kvs) key"
| "get_prop v key = None"

fun truthy :: "json option \<Rightarrow> bool" where
  "truthy None = False"
| "truthy (Some JNull) = False"
| "truthy (Some (JBool b)) = b"
| "truthy (Some (JNum n)) = (n \<noteq> 0)"
| "truthy (Some (JStr s)) = (s \<noteq> [])"
| "truthy (Some (JArr vs)) = True"
| "truthy (Some (JObj kvs)) = True"

record site =
  url :: "json option"
  title :: "json option"
  version :: "json option"

section \<open>The process state\<close>

text \<open>
  The options handed to \<^verbatim>\<open>esbuild.build\<close> that vary from call to call (the others are
  constants), and the part of its result the program reads: the keys of
  \<^verbatim>\<open>metafile.inputs\<close> and the entries of \<^verbatim>\<open>metafile.outputs\<close> with their byte counts.
\<close>

record build_options =
  entryPoints :: "string list"
  minify :: bool
  footer :: bool

record metafile =
  inputs :: "string list"
  outputs :: "(string \<times> nat) list"

text \<open>
  The bundler is a capability of the environment: it reads the files as they are when it is
  called, so its answer depends on when it is called. The first argument is the number of
  builds started before this one.
\<close>

type_synonym bundler = "nat \<Rightarrow> build_options \<Rightarrow> error + metafile"

datatype readyState = CONNECTING | OPEN | CLOSING | CLOSED

type_synonym client = "nat \<times> readyState"

datatype header = NoConnection | Connected | ConnectedSite "json option" "json option" | Visit

datatype console_line =
    Header header
  | Compilation "(string \<times> string) list" "string option" bool
  | HbsNotice string

text \<open>
  The mutable state: the module-level \<^verbatim>\<open>tree\<close> and \<^verbatim>\<open>siteData\<close> (\<open>None\<close> is its initial
  \<^verbatim>\<open>false\<close>), the timer \<^verbatim>\<open>int\<close> of \<^verbatim>\<open>initWs\<close> (the time at which it is due while it is
  pending) and its flag \<^verbatim>\<open>firstConnection\<close>, the clock, and the handlers of the watcher
  that are suspended at their \<^verbatim>\<open>await\<close> (\<open>pending\<close>: the number of the build each one
  waits for, its entry, and the changed path). The rest records what the process has
  done: the builds it started, in the order of their start; the builds the bundler
  accepted, numbered as in \<open>builds\<close>, in the order in which they completed; the messages
  it sent (client, text); and what it printed.
\<close>

record world =
  tree :: "string \<rightharpoonup> string"
  siteData :: "site option"
  int_timer :: "nat option"
  firstConnection :: bool
  now :: nat
  pending :: "(nat \<times> string \<times> string) list"
  builds :: "build_options list"
  completed :: "(nat \<times> build_options) list"
  sent :: "(nat \<times> string) list"
  console :: "console_line list"

definition world0 :: world where
  "world0 = \<lparr>tree = Map.empty, siteData = None, int_timer = None, firstConnection = False,
             now = 0, pending = [], builds = [], completed = [], sent = [], console = []\<rparr>"

section \<open>The build executor\<close>

text \<open>
  The \<^verbatim>\<open>reduce\<close> over the outputs of a build, \<open>acc\<close> being its accumulator: an output
  whose key includes \<^verbatim>\<open>map\<close> is skipped, any other is pushed with its formatted size.
\<close>

fun reduce_outputs ::
  "(string \<times> nat) list \<Rightarrow> (string \<times> string) list \<Rightarrow> error + (string \<times> string) list" where
  "reduce_outputs [] acc = Inr acc"
| "reduce_outputs ((key, bytes) # rest) acc =
     (if includes_js key ''map'' then reduce_outputs rest acc
      else case formatBytes (JsNumber bytes) None of
             Inl e \<Rightarrow> Inl e
           | Inr formatted \<Rightarrow> reduce_outputs rest (acc @ [(key, formatted)]))"

definition buildOptionsClone :: "bool \<Rightarrow> string \<Rightarrow> build_options" where
  "buildOptionsClone isWatch entry =
     \<lparr>entryPoints = [entry], minify = \<not> isWatch,
      footer = (isWatch \<and> includes_js entry ''assets/js/index'')\<rparr>"

text \<open>
  One turn of the \<^verbatim>\<open>for await\<close> loop of \<^verbatim>\<open>writeAssets\<close> after its \<^verbatim>\<open>await\<close>: build
  number \<open>i\<close> of \<open>entry\<close> has been accepted with the result \<open>res\<close>; \<^verbatim>\<open>tree.set\<close> runs for
  each input, then the \<^verbatim>\<open>reduce\<close> over the outputs.
\<close>

definition after_build ::
  "bool \<Rightarrow> string \<Rightarrow> nat \<Rightarrow> metafile \<Rightarrow> world \<Rightarrow> (error + (string \<times> string) list) \<times> world" where
  "after_build isWatch entry i res w =
     (reduce_outputs (outputs res) [],
      w\<lparr>tree := foldl (\<lambda>t input. t(input \<mapsto> entry)) (tree w) (inputs res),
        completed := completed w @ [(i, buildOptionsClone isWatch entry)]\<rparr>)"

text \<open>
  One whole turn of the loop, when nothing else runs while the build is awaited: the build
  is started, the bundler answers, and the turn goes on. A rejected build leaves the loop
  with the error; what earlier turns wrote to \<open>tree\<close> stays.
\<close>

definition build_entry ::
  "bundler \<Rightarrow> bool \<Rightarrow> string \<Rightarrow> world \<Rightarrow> (error + (string \<times> string) list) \<times> world" where
  "build_entry esbuild isWatch entry w =
     (let w1 = w\<lparr>builds := builds w @ [buildOptionsClone isWatch entry]\<rparr>
      in case esbuild (length (builds w)) (buildOptionsClone isWatch entry) of
           Inl e \<Rightarrow> (Inl e, w1)
         | Inr res \<Rightarrow> after_build isWatch entry (length (builds w)) res w1)"

fun writeAssets_loop ::
  "bundler \<Rightarrow> bool \<Rightarrow> string list \<Rightarrow> (string \<times> string) list \<Rightarrow> world
     \<Rightarrow> (error + (string \<times> string) list) \<times> world" where
  "writeAssets_loop esbuild isWatch [] results w = (Inr results, w)"
| "writeAssets_loop esbuild isWatch (entry # rest) results w =
     (case build_entry esbuild isWatch entry w of
        (Inl e, w') \<Rightarrow> (Inl e, w')
      | (Inr vals, w') \<Rightarrow> writeAssets_loop esbuild isWatch rest (results @ vals) w')"

text \<open>The elapsed time of the returned object is not modelled.\<close>

definition writeAssets ::
  "bundler \<Rightarrow> bool \<Rightarrow> string list \<Rightarrow> world \<Rightarrow> (error + (string \<times> string) list) \<times> world" where
  "writeAssets esbuild isWatch jsEntryPoints w = writeAssets_loop esbuild isWatch jsEntryPoints [] w"

section \<open>Watch mode\<close>

definition printHeader :: "bool \<Rightarrow> bool \<Rightarrow> site option \<Rightarrow> header" where
  "printHeader connectionError firstConn sd =
     (if connectionError then NoConnection
      else if firstConn then Connected
      else if truthy (case sd of None \<Rightarrow> None | Some s \<Rightarrow> version s)
      then ConnectedSite (case sd of None \<Rightarrow> None | Some s \<Rightarrow> url s)
                         (case sd of None \<Rightarrow> None | Some s \<Rightarrow> version s)
      else Visit)"

definition console_log :: "console_line list \<Rightarrow> world \<Rightarrow> world" where
  "console_log lines w = w\<lparr>console := console w @ lines\<rparr>"

definition initWs :: "(string \<times> string) list \<Rightarrow> world \<Rightarrow> world" where
  "initWs res w =
     console_log [Header (printHeader False False (siteData w)), Compilation res None True]
       (w\<lparr>int_timer := Some (now w + 5000), firstConnection := True\<rparr>)"

text \<open>The \<^verbatim>\<open>forEach\<close> over \<^verbatim>\<open>wss.clients\<close> that sends to the clients whose socket is open.\<close>

definition broadcast :: "client list \<Rightarrow> string \<Rightarrow> world \<Rightarrow> world" where
  "broadcast clients msg w =
     w\<lparr>sent := sent w @ map (\<lambda>c. (fst c, msg)) (filter (\<lambda>c. snd c = OPEN) clients)\<rparr>"

text \<open>
  The entry a changed script or style belongs to, \<^verbatim>\<open>rootFile\<close> in the watcher's handler:
  the path itself when the regular expression matches it, otherwise \<^verbatim>\<open>tree.get(path)\<close>,
  which is \<^verbatim>\<open>undefined\<close> (\<open>None\<close>) for a path never set.
\<close>

definition rootFile :: "(string \<rightharpoonup> string) \<Rightarrow> string \<Rightarrow> string option" where
  "rootFile t path = (if \<not> regex_index_test path then t path else Some path)"

text \<open>
  The handler of the watcher's events, when nothing else runs while it awaits its build;
  the kind of the event is ignored by the source. \<open>clients\<close> are the clients of the server
  when the handler broadcasts. A rejected build is an uncaught rejection of the handler:
  nothing after the \<^verbatim>\<open>await\<close> runs.
\<close>

definition on_change ::
  "bundler \<Rightarrow> bool \<Rightarrow> client list \<Rightarrow> string \<Rightarrow> world \<Rightarrow> (error + unit) \<times> world" where
  "on_change esbuild isWatch clients path w =
     (let w1 = (if endsWith path ''.hbs''
                then broadcast clients (''HBS changed: '' @ path)
                       (console_log [Header (printHeader False False (siteData w)), HbsNotice path] w)
                else w)
      in if endsWith path ''.css'' \<or> endsWith path ''.js'' \<or> endsWith path ''.ts'' then
           (case rootFile (tree w1) path of
              None \<Rightarrow> (Inr (), w1)
            | Some r \<Rightarrow>
                if r = [] then (Inr (), w1)
                else
                  (case writeAssets esbuild isWatch [r] w1 of
                     (Inl e, w2) \<Rightarrow> (Inl e, w2)
                   | (Inr res, w2) \<Rightarrow>
                       (Inr (),
                        broadcast clients (''File changed: '' @ path)
                          (console_log [Header (printHeader False False (siteData w2)),
                                  Compilation res (Some path) False] w2))))
         else (Inr (), w1))"

text \<open>
  The handler is \<^verbatim>\<open>async\<close> and the watcher does not wait for it: while it is suspended
  at \<^verbatim>\<open>await writeAssets([rootFile])\<close>, other events are handled, further changes among
  them, and the builds complete in any order. The two halves of the handler:
  \<open>on_change_start\<close> runs up to the start of the build and leaves the handler in
  \<open>pending\<close>; \<open>on_build_done\<close> runs when the build of the \<open>k\<close>-th pending handler has
  completed, from the answer of the bundler to the broadcast, with the clients of that
  moment.
\<close>

definition on_change_start :: "bool \<Rightarrow> client list \<Rightarrow> string \<Rightarrow> world \<Rightarrow> world" where
  "on_change_start isWatch clients path w =
     (let w1 = (if endsWith path ''.hbs''
                then broadcast clients (''HBS changed: '' @ path)
                       (console_log [Header (printHeader False False (siteData w)), HbsNotice path] w)
                else w)
      in if endsWith path ''.css'' \<or> endsWith path ''.js'' \<or> endsWith path ''.ts'' then
           (case rootFile (tree w1) path of
              None \<Rightarrow> w1
            | Some r \<Rightarrow>
                if r = [] then w1
                else w1\<lparr>builds := builds w1 @ [buildOptionsClone isWatch r],
                        pending := pending w1 @ [(length (builds w1), r, path)]\<rparr>)
         else w1)"

definition on_build_done ::
  "bundler \<Rightarrow> bool \<Rightarrow> client list \<Rightarrow> nat \<Rightarrow> world \<Rightarrow> (error + unit) \<times> world" where
  "on_build_done esbuild isWatch clients k w =
     (if k < length (pending w) then
        (case pending w ! k of
           (i, r, path) \<Rightarrow>
             (let w1 = w\<lparr>pending := take k (pending w) @ drop (Suc k) (pending w)\<rparr> in
              case esbuild i (buildOptionsClone isWatch r) of
                Inl e \<Rightarrow> (Inl e, w1)
              | Inr built \<Rightarrow>
                  (case after_build isWatch r i built w1 of
                     (Inl e, w2) \<Rightarrow> (Inl e, w2)
                   | (Inr res, w2) \<Rightarrow>
                       (Inr (),
                        broadcast clients (''File changed: '' @ path)
                          (console_log [Header (printHeader False False (siteData w2)),
                                  Compilation res (Some path) False] w2)))))
      else (Inr (), w))"

text \<open>
  The handler of a client's message, applied to what \<^verbatim>\<open>JSON.parse(message)\<close> gives: the
  SyntaxError it throws, or the value, which is then destructured (a TypeError when the
  value is \<^verbatim>\<open>null\<close>).
\<close>

definition on_message :: "error + json \<Rightarrow> world \<Rightarrow> (error + unit) \<times> world" where
  "on_message parsed w =
     (case parsed of
        Inl e \<Rightarrow> (Inl e, w)
      | Inr v \<Rightarrow>
          if v = JNull then (Inl TypeError, w)
          else (Inr (),
                w\<lparr>siteData := Some \<lparr>url = get_prop v ''url'', title = get_prop v ''title'',
                                     version = get_prop v ''version''\<rparr>\<rparr>))"

definition on_connection :: "world \<Rightarrow> world" where
  "on_connection w =
     (let w1 = w\<lparr>int_timer := None\<rparr> in
      if firstConnection w1
      then (console_log [Header (printHeader False True (siteData w1))] w1)\<lparr>firstConnection := False\<rparr>
      else w1)"

text \<open>
  The passing of time: the clock advances, and the callback of a pending timer that has
  become due runs (once: it is no longer pending afterwards).
\<close>

definition elapse :: "nat \<Rightarrow> world \<Rightarrow> world" where
  "elapse d w =
     (let w1 = w\<lparr>now := now w + d\<rparr> in
      case int_timer w1 of
        None \<Rightarrow> w1
      | Some due \<Rightarrow>
          if due \<le> now w1
          then console_log [Header (printHeader True False (siteData w1))] (w1\<lparr>int_timer := None\<rparr>)
          else w1)"

text \<open>
  What happens to the process in watch mode, one event at a time: time passes, a client
  connects, a client's message arrives (given by what parsing it yields), the watcher
  reports a path (with the clients of that moment), the build of the \<open>k\<close>-th suspended
  handler completes (with the clients of that moment). Between two events the code runs
  without interruption; a change handler is two events, its start and the completion of
  its build, and anything may happen between them. An uncaught error ends the run.
\<close>

datatype event =
    Elapse nat
  | Connection
  | Message "error + json"
  | Change string "client list"
  | BuildDone nat "client list"

fun step :: "bundler \<Rightarrow> bool \<Rightarrow> event \<Rightarrow> world \<Rightarrow> (error + unit) \<times> world" where
  "step esbuild isWatch (Elapse d) w = (Inr (), elapse d w)"
| "step esbuild isWatch Connection w = (Inr (), on_connection w)"
| "step esbuild isWatch (Message parsed) w = on_message parsed w"
| "step esbuild isWatch (Change path clients) w = (Inr (), on_change_start isWatch clients path w)"
| "step esbuild isWatch (BuildDone k clients) w = on_build_done esbuild isWatch clients k w"

fun run :: "bundler \<Rightarrow> bool \<Rightarrow> event list \<Rightarrow> world \<Rightarrow> (error + unit) \<times> world" where
  "run esbuild isWatch [] w = (Inr (), w)"
| "run esbuild isWatch (e # es) w =
     (case step esbuild isWatch e w of
        (Inl err, w') \<Rightarrow> (Inl err, w')
      | (Inr u, w') \<Rightarrow> run esbuild isWatch es w')"

text \<open>
  \<^verbatim>\<open>init\<close> in watch mode, from the start of the process to the return of \<^verbatim>\<open>initWs\<close>:
  \<open>js\<close> and \<open>css\<close> are what lies at \<^verbatim>\<open>assets/js\<close> and \<^verbatim>\<open>assets/css\<close>. Spreading the
  \<^verbatim>\<open>undefined\<close> of a failed discovery is a TypeError. The watcher's handler is
  registered by \<^verbatim>\<open>initWs\<close>, so nothing interleaves with the builds of \<^verbatim>\<open>init\<close>. The
  scaffolding of \<^verbatim>\<open>--init\<close> and the query for the address of the running site, which
  only feeds the header, are left out.
\<close>

definition init :: "bundler \<Rightarrow> fsnode \<Rightarrow> fsnode \<Rightarrow> (error + unit) \<times> world" where
  "init esbuild js css =
     (case (findEntryPoints js ''assets/js'' [''.ts'', ''.js''],
            findEntryPoints css ''assets/css'' [''.css'']) of
        (Some jsEntryPoints, Some cssEntryPoints) \<Rightarrow>
          (case writeAssets esbuild True (jsEntryPoints @ cssEntryPoints) world0 of
             (Inl e, w) \<Rightarrow> (Inl e, w)
           | (Inr res, w) \<Rightarrow> (Inr (), initWs res w))
      | _ \<Rightarrow> (Inl TypeError, world0))"

text \<open>
  The vocabulary of the statements about the dependency index and the timer: the entry of
  the latest build, in a list of completed builds in the order of their completion, that
  consumed \<open>x\<close>; and the time that passes in a list of events.
\<close>

fun last_owner :: "bundler \<Rightarrow> (nat \<times> build_options) list \<Rightarrow> string \<Rightarrow> string option" where
  "last_owner esbuild [] x = None"
| "last_owner esbuild ((i, opts) # log) x =
     (case last_owner esbuild log x of
        Some e \<Rightarrow> Some e
      | None \<Rightarrow>
          (case (esbuild i opts, entryPoints opts) of
             (Inr res, [entry]) \<Rightarrow> if x \<in> set (inputs res) then Some entry else None
           | _ \<Rightarrow> None))"

fun elapsed :: "event list \<Rightarrow> nat" where
  "elapsed [] = 0"
| "elapsed (Elapse d # es) = d + elapsed es"
| "elapsed (e # es) = elapsed es"

section \<open>Facts about strings\<close>

lemma endsWith_suffix: "endsWith s t \<longleftrightarrow> suffix t s"
  unfolding endsWith_def
  by (metis suffix_drop suffix_length_le suffix_def append_eq_conv_conj length_append add_diff_cancel_right' diff_add_inverse2)

lemma take_prefix: "take (length t) xs = t \<longleftrightarrow> prefix t xs"
  by (metis append_take_drop_id prefix_def append_eq_conv_conj)

lemma includes_js_sublist: "includes_js s t \<longleftrightarrow> sublist t s"
  by (induction s) (auto simp: sublist_Cons_right take_prefix simp del: take_Suc_Cons)

section \<open>formatBytes\<close>

























lemma toFixed_in_range: "dm \<le> 100 \<Longrightarrow> toFixed num den dm = Inr (fixed_digits num den dm)"
  by (simp add: toFixed_def)

lemma toFixed_out_of_range: "100 < dm \<Longrightarrow> toFixed num den dm = Inl RangeError"
  by (simp add: toFixed_def)









lemma formatBytes_default: "\<exists>s. formatBytes (JsNumber n) None = Inr s"
  by (cases "n = 0") (simp_all add: formatBytes_def Let_def toFixed_def)



section \<open>The build executor and the dependency index\<close>

lemma tree_set_inputs:
  "foldl (\<lambda>t input. t(input \<mapsto> entry)) t ins x = (if x \<in> set ins then Some entry else t x)"
  by (induction ins arbitrary: t) auto

lemma reduce_outputs_result:
  "reduce_outputs outs acc =
     Inr (acc @ map (\<lambda>(key, bytes). (key, projr (formatBytes (JsNumber bytes) None)))
                   (filter (\<lambda>(key, bytes). \<not> includes_js key ''map'') outs))"
proof (induction outs arbitrary: acc)
  case Nil
  show ?case by simp
next
  case (Cons out outs)
  obtain key bytes where out: "out = (key, bytes)" by (cases out)
  obtain s where s: "formatBytes (JsNumber bytes) None = Inr s"
    using formatBytes_default by blast
  show ?case
    by (simp add: out s Cons.IH)
qed

lemma after_build_result:
  "after_build isWatch entry i res w =
     (Inr (map (\<lambda>(key, bytes). (key, projr (formatBytes (JsNumber bytes) None)))
            (filter (\<lambda>(key, bytes). \<not> includes_js key ''map'') (outputs res))),
      w\<lparr>tree := (\<lambda>x. if x \<in> set (inputs res) then Some entry else tree w x),
        completed := completed w @ [(i, buildOptionsClone isWatch entry)]\<rparr>)"
  by (simp add: after_build_def reduce_outputs_result tree_set_inputs[abs_def])

lemma build_entry_Inr:
  assumes "esbuild (length (builds w)) (buildOptionsClone isWatch entry) = Inr res"
  shows "build_entry esbuild isWatch entry w =
    (Inr (map (\<lambda>(key, bytes). (key, projr (formatBytes (JsNumber bytes) None)))
            (filter (\<lambda>(key, bytes). \<not> includes_js key ''map'') (outputs res))),
     w\<lparr>builds := builds w @ [buildOptionsClone isWatch entry],
       tree := (\<lambda>x. if x \<in> set (inputs res) then Some entry else tree w x),
       completed := completed w @ [(length (builds w), buildOptionsClone isWatch entry)]\<rparr>)"
  using assms by (simp add: build_entry_def Let_def after_build_result cong: if_cong)

lemma build_entry_Inl:
  assumes "esbuild (length (builds w)) (buildOptionsClone isWatch entry) = Inl e"
  shows "build_entry esbuild isWatch entry w =
    (Inl e, w\<lparr>builds := builds w @ [buildOptionsClone isWatch entry]\<rparr>)"
  using assms by (simp add: build_entry_def Let_def)

lemma writeAssets_single_Inr:
  assumes "esbuild (length (builds w)) (buildOptionsClone isWatch entry) = Inr res"
  shows "writeAssets esbuild isWatch [entry] w =
    (Inr (map (\<lambda>(key, bytes). (key, projr (formatBytes (JsNumber bytes) None)))
            (filter (\<lambda>(key, bytes). \<not> includes_js key ''map'') (outputs res))),
     w\<lparr>builds := builds w @ [buildOptionsClone isWatch entry],
       tree := (\<lambda>x. if x \<in> set (inputs res) then Some entry else tree w x),
       completed := completed w @ [(length (builds w), buildOptionsClone isWatch entry)]\<rparr>)"
  using assms by (simp add: writeAssets_def build_entry_Inr)

lemma writeAssets_single_Inl:
  assumes "esbuild (length (builds w)) (buildOptionsClone isWatch entry) = Inl e"
  shows "writeAssets esbuild isWatch [entry] w =
    (Inl e, w\<lparr>builds := builds w @ [buildOptionsClone isWatch entry]\<rparr>)"
  using assms by (simp add: writeAssets_def build_entry_Inl)

text \<open>
  C1. When the bundler accepts the build of entry \<open>E\<close> and reports the inputs of \<open>res\<close>,
  the build completes, and afterwards \<open>tree\<close> maps every one of these inputs to \<open>E\<close>,
  whatever it mapped them to before. A path that was never recorded (not in \<open>tree\<close>
  before, not an input of this build) and that the regular expression of the root entries
  does not match resolves to nothing.
\<close>

theorem build_records_inputs:
  assumes "esbuild (length (builds w)) (buildOptionsClone isWatch E) = Inr res"
  shows "\<exists>vals w'. build_entry esbuild isWatch E w = (Inr vals, w') \<and>
           writeAssets esbuild isWatch [E] w = (Inr vals, w') \<and>
           (\<forall>p \<in> set (inputs res). tree w' p = Some E) \<and>
           (\<forall>q. tree w q = None \<and> q \<notin> set (inputs res) \<and> \<not> regex_index_test q
                 \<longrightarrow> tree w' q = None \<and> rootFile (tree w') q = None)"
  using assms by (simp add: build_entry_Inr writeAssets_single_Inr rootFile_def)

theorem build_records_inputs_witness:
  "\<exists>vals w'.
     build_entry (\<lambda>i opts. Inr \<lparr>inputs = [''a.css'', ''b.css'', ''c.css''], outputs = []\<rparr>) True
       ''assets/css/index.css'' (world0\<lparr>tree := [''a.css'' \<mapsto> ''old.css'']\<rparr>) = (Inr vals, w') \<and>
     tree w' ''a.css'' = Some ''assets/css/index.css'' \<and>
     tree w' ''b.css'' = Some ''assets/css/index.css'' \<and>
     tree w' ''c.css'' = Some ''assets/css/index.css'' \<and>
     rootFile (tree w') ''d.css'' = None"
  using build_records_inputs[of "\<lambda>i opts. Inr \<lparr>inputs = [''a.css'', ''b.css'', ''c.css''], outputs = []\<rparr>"
      "world0\<lparr>tree := [''a.css'' \<mapsto> ''old.css'']\<rparr>" True
      "''assets/css/index.css''" "\<lparr>inputs = [''a.css'', ''b.css'', ''c.css''], outputs = []\<rparr>"]
  by (auto simp: world0_def)

text \<open>
  C5. The \<^verbatim>\<open>reduce\<close> drops every output whose path contains \<^verbatim>\<open>map\<close> anywhere, not only
  the source maps: for the entry \<^verbatim>\<open>assets/js/sitemap/index.js\<close> the bundler writes the
  bundle \<^verbatim>\<open>assets/built/js/sitemap/index.js\<close> and its source map, and the result list
  of the build is empty: the bundle is missing from it.
\<close>

theorem writeAssets_drops_bundle_with_map_in_path:
  "fst (writeAssets
     (\<lambda>i opts. Inr \<lparr>inputs = [''assets/js/sitemap/index.js''],
                     outputs = [(''assets/built/js/sitemap/index.js'', 2048),
                                (''assets/built/js/sitemap/index.js.map'', 5120)]\<rparr>)
     False [''assets/js/sitemap/index.js''] world0) = Inr []"
  by (simp add: writeAssets_single_Inr)

section \<open>What a build leaves as it was\<close>

lemma build_entry_frame:
  "siteData (snd (build_entry esbuild isWatch entry w)) = siteData w"
  "int_timer (snd (build_entry esbuild isWatch entry w)) = int_timer w"
  "firstConnection (snd (build_entry esbuild isWatch entry w)) = firstConnection w"
  "now (snd (build_entry esbuild isWatch entry w)) = now w"
  "pending (snd (build_entry esbuild isWatch entry w)) = pending w"
  "sent (snd (build_entry esbuild isWatch entry w)) = sent w"
  "console (snd (build_entry esbuild isWatch entry w)) = console w"
  by (cases "esbuild (length (builds w)) (buildOptionsClone isWatch entry)";
      simp add: build_entry_Inl build_entry_Inr)+

lemma loop_frame:
  "siteData (snd (writeAssets_loop esbuild isWatch entries results w)) = siteData w \<and>
   int_timer (snd (writeAssets_loop esbuild isWatch entries results w)) = int_timer w \<and>
   firstConnection (snd (writeAssets_loop esbuild isWatch entries results w)) = firstConnection w \<and>
   now (snd (writeAssets_loop esbuild isWatch entries results w)) = now w \<and>
   pending (snd (writeAssets_loop esbuild isWatch entries results w)) = pending w \<and>
   sent (snd (writeAssets_loop esbuild isWatch entries results w)) = sent w \<and>
   console (snd (writeAssets_loop esbuild isWatch entries results w)) = console w"
proof (induction entries arbitrary: results w)
  case Nil
  show ?case by simp
next
  case (Cons entry rest)
  obtain r w' where b: "build_entry esbuild isWatch entry w = (r, w')"
    by (cases "build_entry esbuild isWatch entry w")
  have d: "siteData w' = siteData w" "int_timer w' = int_timer w"
     "firstConnection w' = firstConnection w" "now w' = now w" "pending w' = pending w"
     "sent w' = sent w" "console w' = console w"
    using build_entry_frame[of esbuild isWatch entry w] b by simp_all
  show ?case
  proof (cases r)
    case (Inl e)
    with b d show ?thesis by simp
  next
    case (Inr vals)
    with b d Cons.IH[of "results @ vals" w'] show ?thesis by simp
  qed
qed

lemma writeAssets_frame:
  "int_timer (snd (writeAssets esbuild isWatch entries w)) = int_timer w"
  "now (snd (writeAssets esbuild isWatch entries w)) = now w"
  "console (snd (writeAssets esbuild isWatch entries w)) = console w"
  "siteData (snd (writeAssets esbuild isWatch entries w)) = siteData w"
  "pending (snd (writeAssets esbuild isWatch entries w)) = pending w"
  by (simp_all add: writeAssets_def loop_frame)

section \<open>The change router\<close>

lemma hbs_not_script:
  assumes "endsWith path ''.hbs''"
  shows "\<not> endsWith path ''.css''" "\<not> endsWith path ''.js''" "\<not> endsWith path ''.ts''"
proof -
  from assms obtain zs where p: "path = zs @ ''.hbs''"
    by (auto simp: endsWith_suffix suffix_def)
  show "\<not> endsWith path ''.css''" "\<not> endsWith path ''.js''" "\<not> endsWith path ''.ts''"
    by (simp_all add: p endsWith_def)
qed

lemma on_change_hbs:
  "endsWith path ''.hbs'' \<Longrightarrow>
   on_change esbuild isWatch clients path w =
     (Inr (), broadcast clients (''HBS changed: '' @ path)
        (console_log [Header (printHeader False False (siteData w)), HbsNotice path] w))"
  by (simp add: on_change_def hbs_not_script)

lemma on_change_script:
  assumes "endsWith path ''.css'' \<or> endsWith path ''.js'' \<or> endsWith path ''.ts''"
  shows "on_change esbuild isWatch clients path w =
     (case rootFile (tree w) path of
        None \<Rightarrow> (Inr (), w)
      | Some r \<Rightarrow>
          if r = [] then (Inr (), w)
          else
            (case writeAssets esbuild isWatch [r] w of
               (Inl e, w2) \<Rightarrow> (Inl e, w2)
             | (Inr res, w2) \<Rightarrow>
                 (Inr (),
                  broadcast clients (''File changed: '' @ path)
                    (console_log [Header (printHeader False False (siteData w2)),
                            Compilation res (Some path) False] w2))))"
proof -
  have "\<not> endsWith path ''.hbs''" using assms hbs_not_script by blast
  with assms show ?thesis by (simp add: on_change_def)
qed

lemma on_change_other:
  "\<not> endsWith path ''.hbs'' \<Longrightarrow> \<not> endsWith path ''.css'' \<Longrightarrow> \<not> endsWith path ''.js'' \<Longrightarrow>
   \<not> endsWith path ''.ts'' \<Longrightarrow> on_change esbuild isWatch clients path w = (Inr (), w)"
  by (simp add: on_change_def)

lemma on_change_resolved:
  assumes "endsWith path ''.css'' \<or> endsWith path ''.js'' \<or> endsWith path ''.ts''"
    and "rootFile (tree w) path = Some E" and "E \<noteq> []"
  shows "\<exists>r w'. on_change esbuild isWatch clients path w = (r, w') \<and>
           builds w' = builds w @ [buildOptionsClone isWatch E]"
proof (cases "esbuild (length (builds w)) (buildOptionsClone isWatch E)")
  case (Inl e)
  with assms(2,3) show ?thesis
    by (simp add: on_change_script[OF assms(1)] writeAssets_single_Inl)
next
  case (Inr res)
  with assms(2,3) show ?thesis
    by (simp add: on_change_script[OF assms(1)] writeAssets_single_Inr broadcast_def console_log_def)
qed

lemma on_change_start_hbs:
  "endsWith path ''.hbs'' \<Longrightarrow>
   on_change_start isWatch clients path w =
     broadcast clients (''HBS changed: '' @ path)
        (console_log [Header (printHeader False False (siteData w)), HbsNotice path] w)"
  by (simp add: on_change_start_def hbs_not_script)

lemma on_change_start_script:
  assumes "endsWith path ''.css'' \<or> endsWith path ''.js'' \<or> endsWith path ''.ts''"
  shows "on_change_start isWatch clients path w =
     (case rootFile (tree w) path of
        None \<Rightarrow> w
      | Some r \<Rightarrow>
          if r = [] then w
          else w\<lparr>builds := builds w @ [buildOptionsClone isWatch r],
                 pending := pending w @ [(length (builds w), r, path)]\<rparr>)"
proof -
  have "\<not> endsWith path ''.hbs''" using assms hbs_not_script by blast
  with assms show ?thesis by (simp add: on_change_start_def)
qed

lemma on_change_start_other:
  "\<not> endsWith path ''.hbs'' \<Longrightarrow> \<not> endsWith path ''.css'' \<Longrightarrow> \<not> endsWith path ''.js'' \<Longrightarrow>
   \<not> endsWith path ''.ts'' \<Longrightarrow> on_change_start isWatch clients path w = w"
  by (simp add: on_change_start_def)

lemma on_build_done_none:
  "\<not> k < length (pending w) \<Longrightarrow> on_build_done esbuild isWatch clients k w = (Inr (), w)"
  by (simp add: on_build_done_def)

lemma on_build_done_rejected:
  "k < length (pending w) \<Longrightarrow> pending w ! k = (i, r, path) \<Longrightarrow>
   esbuild i (buildOptionsClone isWatch r) = Inl e \<Longrightarrow>
   on_build_done esbuild isWatch clients k w =
     (Inl e, w\<lparr>pending := take k (pending w) @ drop (Suc k) (pending w)\<rparr>)"
  by (simp add: on_build_done_def)

lemma on_build_done_accepted:
  "k < length (pending w) \<Longrightarrow> pending w ! k = (i, r, path) \<Longrightarrow>
   esbuild i (buildOptionsClone isWatch r) = Inr built \<Longrightarrow>
   on_build_done esbuild isWatch clients k w =
     (Inr (),
      broadcast clients (''File changed: '' @ path)
        (console_log
           [Header (printHeader False False (siteData w)),
            Compilation (map (\<lambda>(key, bytes). (key, projr (formatBytes (JsNumber bytes) None)))
                          (filter (\<lambda>(key, bytes). \<not> includes_js key ''map'') (outputs built)))
              (Some path) False]
           (w\<lparr>pending := take k (pending w) @ drop (Suc k) (pending w),
              tree := (\<lambda>x. if x \<in> set (inputs built) then Some r else tree w x),
              completed := completed w @ [(i, buildOptionsClone isWatch r)]\<rparr>)))"
  by (simp add: on_build_done_def after_build_result cong: if_cong)

text \<open>
  The two halves make the whole: when nothing happens between the start of a handler and
  the completion of its build, they do together what \<open>on_change\<close> does.
\<close>

lemma on_change_two_halves:
  "on_change esbuild isWatch clients path w =
     (if pending (on_change_start isWatch clients path w) = pending w
      then (Inr (), on_change_start isWatch clients path w)
      else on_build_done esbuild isWatch clients (length (pending w))
             (on_change_start isWatch clients path w))"
proof (cases "endsWith path ''.hbs''")
  case True
  then show ?thesis
    by (simp add: on_change_hbs on_change_start_hbs broadcast_def console_log_def)
next
  case nh: False
  show ?thesis
  proof (cases "endsWith path ''.css'' \<or> endsWith path ''.js'' \<or> endsWith path ''.ts''")
    case False
    with nh show ?thesis by (simp add: on_change_other on_change_start_other)
  next
    case True
    note sc = on_change_script[OF True, of esbuild isWatch clients w]
    note st = on_change_start_script[OF True, of isWatch clients w]
    show ?thesis
    proof (cases "rootFile (tree w) path")
      case None
      with sc st show ?thesis by simp
    next
      case (Some r)
      show ?thesis
      proof (cases "r = []")
        case True
        with sc st Some show ?thesis by simp
      next
        case False
        let ?s = "w\<lparr>builds := builds w @ [buildOptionsClone isWatch r],
                    pending := pending w @ [(length (builds w), r, path)]\<rparr>"
        have s: "on_change_start isWatch clients path w = ?s" using st Some False by simp
        have k: "length (pending w) < length (pending ?s)"
          "pending ?s ! length (pending w) = (length (builds w), r, path)" by simp_all
        show ?thesis
        proof (cases "esbuild (length (builds w)) (buildOptionsClone isWatch r)")
          case (Inl e)
          from on_build_done_rejected[where esbuild = esbuild and isWatch = isWatch
              and clients = clients and w = ?s and k = "length (pending w)"
              and i = "length (builds w)" and r = r and path = path and e = e] k Inl
          have "on_build_done esbuild isWatch clients (length (pending w)) ?s =
              (Inl e, w\<lparr>builds := builds w @ [buildOptionsClone isWatch r]\<rparr>)"
            by simp
          with sc Some False Inl s show ?thesis by (simp add: writeAssets_single_Inl)
        next
          case (Inr built)
          from on_build_done_accepted[where esbuild = esbuild and isWatch = isWatch
              and clients = clients and w = ?s and k = "length (pending w)"
              and i = "length (builds w)" and r = r and path = path and built = built] k Inr
          have "on_build_done esbuild isWatch clients (length (pending w)) ?s =
              (Inr (),
               broadcast clients (''File changed: '' @ path)
                 (console_log
                   [Header (printHeader False False (siteData w)),
                    Compilation (map (\<lambda>(key, bytes). (key, projr (formatBytes (JsNumber bytes) None)))
                          (filter (\<lambda>(key, bytes). \<not> includes_js key ''map'') (outputs built)))
                      (Some path) False]
                   (w\<lparr>builds := builds w @ [buildOptionsClone isWatch r],
                      tree := (\<lambda>x. if x \<in> set (inputs built) then Some r else tree w x),
                      completed := completed w @ [(length (builds w), buildOptionsClone isWatch r)]\<rparr>)))"
            by (simp add: broadcast_def console_log_def cong: if_cong)
          with sc Some False Inr s show ?thesis
            by (simp add: writeAssets_single_Inr broadcast_def console_log_def)
        qed
      qed
    qed
  qed
qed

text \<open>
  C6. A change of a path that ends in \<^verbatim>\<open>.hbs\<close> starts no build and leaves the index as
  it is; what is sent is the text \<^verbatim>\<open>HBS changed: \<close> followed by the path, once to every
  client whose socket is open, and nothing else.
\<close>

theorem hbs_change_broadcast_only:
  assumes "endsWith path ''.hbs''"
  shows "\<exists>w'. on_change esbuild isWatch clients path w = (Inr (), w') \<and>
           builds w' = builds w \<and> tree w' = tree w \<and>
           sent w' = sent w @ map (\<lambda>c. (fst c, ''HBS changed: '' @ path))
                                 (filter (\<lambda>c. snd c = OPEN) clients)"
  using assms by (simp add: on_change_hbs broadcast_def console_log_def)

theorem hbs_change_broadcast_only_witness:
  "endsWith ''post.hbs'' ''.hbs'' \<and>
   (\<exists>w'. on_change (\<lambda>i opts. Inl BuildError) True [(1, OPEN), (2, CLOSING), (3, OPEN)] ''post.hbs'' world0
            = (Inr (), w') \<and>
          builds w' = [] \<and>
          sent w' = [(1, ''HBS changed: post.hbs''), (3, ''HBS changed: post.hbs'')])"
proof -
  have h: "endsWith ''post.hbs'' ''.hbs''" by (simp add: endsWith_def)
  from hbs_change_broadcast_only[OF h, of "\<lambda>i opts. Inl BuildError" True
      "[(1, OPEN), (2, CLOSING), (3, OPEN)]" world0]
  show ?thesis using h by (auto simp: world0_def)
qed

section \<open>The dependency index over the life of the process\<close>

lemma last_owner_snoc:
  "last_owner esbuild (log @ [(i, opts)]) x =
     (case (esbuild i opts, entryPoints opts) of
        (Inr res, [entry]) \<Rightarrow>
          if x \<in> set (inputs res) then Some entry else last_owner esbuild log x
      | _ \<Rightarrow> last_owner esbuild log x)"
proof (induction log)
  case Nil
  show ?case by (simp split: sum.splits list.splits)
next
  case (Cons a log)
  obtain j o' where a: "a = (j, o')" by (cases a)
  show ?case
    by (simp add: a Cons.IH split: sum.splits list.splits option.splits)
qed

lemma last_owner_accepted:
  "esbuild i (buildOptionsClone isWatch entry) = Inr res \<Longrightarrow>
   last_owner esbuild (log @ [(i, buildOptionsClone isWatch entry)]) =
     (\<lambda>x. if x \<in> set (inputs res) then Some entry else last_owner esbuild log x)"
  by (simp add: last_owner_snoc buildOptionsClone_def fun_eq_iff)

lemma build_entry_inv:
  assumes "tree w = last_owner esbuild (completed w)"
  shows "tree (snd (build_entry esbuild isWatch entry w)) =
           last_owner esbuild (completed (snd (build_entry esbuild isWatch entry w)))"
proof (cases "esbuild (length (builds w)) (buildOptionsClone isWatch entry)")
  case (Inl e)
  then show ?thesis using assms by (simp add: build_entry_Inl)
next
  case (Inr res)
  then show ?thesis
    using assms by (simp add: build_entry_Inr last_owner_accepted cong: if_cong)
qed

lemma build_entry_dom: "dom (tree w) \<subseteq> dom (tree (snd (build_entry esbuild isWatch entry w)))"
  by (cases "esbuild (length (builds w)) (buildOptionsClone isWatch entry)")
     (auto simp: build_entry_Inl build_entry_Inr)

lemma loop_inv:
  "tree w = last_owner esbuild (completed w) \<Longrightarrow>
   tree (snd (writeAssets_loop esbuild isWatch entries results w)) =
     last_owner esbuild (completed (snd (writeAssets_loop esbuild isWatch entries results w)))"
proof (induction entries arbitrary: results w)
  case Nil
  then show ?case by simp
next
  case (Cons entry rest)
  obtain r w' where b: "build_entry esbuild isWatch entry w = (r, w')"
    by (cases "build_entry esbuild isWatch entry w")
  have inv': "tree w' = last_owner esbuild (completed w')"
    using build_entry_inv[OF Cons.prems, of isWatch entry] b by simp
  show ?case
  proof (cases r)
    case (Inl e)
    with b inv' show ?thesis by simp
  next
    case (Inr vals)
    with b Cons.IH[OF inv'] show ?thesis by simp
  qed
qed

lemma loop_dom:
  "dom (tree w) \<subseteq> dom (tree (snd (writeAssets_loop esbuild isWatch entries results w)))"
proof (induction entries arbitrary: results w)
  case Nil
  show ?case by simp
next
  case (Cons entry rest)
  obtain r w' where b: "build_entry esbuild isWatch entry w = (r, w')"
    by (cases "build_entry esbuild isWatch entry w")
  have d: "dom (tree w) \<subseteq> dom (tree w')" using build_entry_dom[of w esbuild isWatch entry] b by simp
  show ?case
  proof (cases r)
    case (Inl e)
    with b d show ?thesis by simp
  next
    case (Inr vals)
    with b d Cons.IH[of w' "results @ vals"] show ?thesis by auto
  qed
qed

lemma writeAssets_inv:
  "tree w = last_owner esbuild (completed w) \<Longrightarrow>
   tree (snd (writeAssets esbuild isWatch entries w)) =
     last_owner esbuild (completed (snd (writeAssets esbuild isWatch entries w)))"
  unfolding writeAssets_def by (rule loop_inv)

lemma writeAssets_dom: "dom (tree w) \<subseteq> dom (tree (snd (writeAssets esbuild isWatch entries w)))"
  unfolding writeAssets_def by (rule loop_dom)

lemma on_change_start_index:
  "tree (on_change_start isWatch clients path w) = tree w"
  "completed (on_change_start isWatch clients path w) = completed w"
  by (simp_all add: on_change_start_def Let_def broadcast_def console_log_def
      split: option.splits)

lemma on_build_done_cases:
  obtains (none) "\<not> k < length (pending w)"
      "on_build_done esbuild isWatch clients k w = (Inr (), w)"
  | (rejected) i r path e where "k < length (pending w)" "pending w ! k = (i, r, path)"
      "esbuild i (buildOptionsClone isWatch r) = Inl e"
      "on_build_done esbuild isWatch clients k w =
         (Inl e, w\<lparr>pending := take k (pending w) @ drop (Suc k) (pending w)\<rparr>)"
  | (accepted) i r path built where "k < length (pending w)" "pending w ! k = (i, r, path)"
      "esbuild i (buildOptionsClone isWatch r) = Inr built"
      "on_build_done esbuild isWatch clients k w =
        (Inr (),
         broadcast clients (''File changed: '' @ path)
          (console_log
           [Header (printHeader False False (siteData w)),
            Compilation (map (\<lambda>(key, bytes). (key, projr (formatBytes (JsNumber bytes) None)))
                          (filter (\<lambda>(key, bytes). \<not> includes_js key ''map'') (outputs built)))
              (Some path) False]
           (w\<lparr>pending := take k (pending w) @ drop (Suc k) (pending w),
              tree := (\<lambda>x. if x \<in> set (inputs built) then Some r else tree w x),
              completed := completed w @ [(i, buildOptionsClone isWatch r)]\<rparr>)))"
proof (cases "k < length (pending w)")
  case False
  then show ?thesis using none on_build_done_none by blast
next
  case True
  obtain i r path where p: "pending w ! k = (i, r, path)" by (cases "pending w ! k")
  show ?thesis
  proof (cases "esbuild i (buildOptionsClone isWatch r)")
    case (Inl e)
    have "on_build_done esbuild isWatch clients k w =
         (Inl e, w\<lparr>pending := take k (pending w) @ drop (Suc k) (pending w)\<rparr>)"
      using True p Inl by (simp add: on_build_done_rejected)
    with True p Inl show ?thesis by (rule rejected)
  next
    case (Inr built)
    have "on_build_done esbuild isWatch clients k w =
        (Inr (),
         broadcast clients (''File changed: '' @ path)
          (console_log
           [Header (printHeader False False (siteData w)),
            Compilation (map (\<lambda>(key, bytes). (key, projr (formatBytes (JsNumber bytes) None)))
                          (filter (\<lambda>(key, bytes). \<not> includes_js key ''map'') (outputs built)))
              (Some path) False]
           (w\<lparr>pending := take k (pending w) @ drop (Suc k) (pending w),
              tree := (\<lambda>x. if x \<in> set (inputs built) then Some r else tree w x),
              completed := completed w @ [(i, buildOptionsClone isWatch r)]\<rparr>)))"
      using True p Inr by (simp add: on_build_done_accepted)
    with True p Inr show ?thesis by (rule accepted)
  qed
qed

lemma on_build_done_inv:
  assumes "tree w = last_owner esbuild (completed w)"
  shows "tree (snd (on_build_done esbuild isWatch clients k w)) =
           last_owner esbuild (completed (snd (on_build_done esbuild isWatch clients k w)))"
proof (cases rule: on_build_done_cases[of k w esbuild isWatch clients])
  case none
  with assms show ?thesis by simp
next
  case (rejected i r path e)
  with assms show ?thesis by simp
next
  case (accepted i r path built)
  with assms show ?thesis
    by (simp add: broadcast_def console_log_def last_owner_accepted cong: if_cong)
qed

lemma on_build_done_dom:
  "dom (tree w) \<subseteq> dom (tree (snd (on_build_done esbuild isWatch clients k w)))"
proof (cases rule: on_build_done_cases[of k w esbuild isWatch clients])
  case none
  then show ?thesis by simp
next
  case (rejected i r path e)
  then show ?thesis by simp
next
  case (accepted i r path built)
  then show ?thesis by (auto simp: broadcast_def console_log_def)
qed

lemma on_build_done_stale:
  "k < length (pending w) \<Longrightarrow> pending w ! k = (i, E, path) \<Longrightarrow>
   esbuild i (buildOptionsClone isWatch E) = Inr res \<Longrightarrow> x \<notin> set (inputs res) \<Longrightarrow>
   tree (snd (on_build_done esbuild isWatch clients k w)) x = tree w x"
  by (simp add: on_build_done_accepted broadcast_def console_log_def)

lemma step_index_other:
  "tree (elapse d w) = tree w" "completed (elapse d w) = completed w"
  "tree (on_connection w) = tree w" "completed (on_connection w) = completed w"
  "tree (snd (on_message parsed w)) = tree w"
  "completed (snd (on_message parsed w)) = completed w"
  by (simp_all add: elapse_def on_connection_def on_message_def console_log_def Let_def
      split: option.splits sum.splits)

lemma step_inv:
  assumes "tree w = last_owner esbuild (completed w)"
  shows "tree (snd (step esbuild isWatch e w)) =
           last_owner esbuild (completed (snd (step esbuild isWatch e w)))"
  using assms
  by (cases e) (simp_all add: step_index_other on_change_start_index on_build_done_inv)

lemma step_dom: "dom (tree w) \<subseteq> dom (tree (snd (step esbuild isWatch e w)))"
  by (cases e) (simp_all add: step_index_other on_change_start_index on_build_done_dom)

lemma run_inv:
  "tree w = last_owner esbuild (completed w) \<Longrightarrow>
   tree (snd (run esbuild isWatch es w)) = last_owner esbuild (completed (snd (run esbuild isWatch es w)))"
proof (induction es arbitrary: w)
  case Nil
  then show ?case by simp
next
  case (Cons e es)
  obtain r w' where s: "step esbuild isWatch e w = (r, w')" by (cases "step esbuild isWatch e w")
  have inv': "tree w' = last_owner esbuild (completed w')"
    using step_inv[OF Cons.prems, of isWatch e] s by simp
  show ?case
  proof (cases r)
    case (Inl err)
    with s inv' show ?thesis by simp
  next
    case (Inr u)
    with s Cons.IH[OF inv'] show ?thesis by simp
  qed
qed

lemma run_dom: "dom (tree w) \<subseteq> dom (tree (snd (run esbuild isWatch es w)))"
proof (induction es arbitrary: w)
  case Nil
  show ?case by simp
next
  case (Cons e es)
  obtain r w' where s: "step esbuild isWatch e w = (r, w')" by (cases "step esbuild isWatch e w")
  have d: "dom (tree w) \<subseteq> dom (tree w')" using step_dom[of w esbuild isWatch e] s by simp
  show ?case
  proof (cases r)
    case (Inl err)
    with s d show ?thesis by simp
  next
    case (Inr u)
    with s d Cons.IH[of w'] show ?thesis by auto
  qed
qed

lemma init_inv:
  "tree (snd (init esbuild js css)) = last_owner esbuild (completed (snd (init esbuild js css)))"
proof -
  have w0: "tree world0 = last_owner esbuild (completed world0)"
    by (simp add: world0_def fun_eq_iff)
  show ?thesis
  proof (cases "findEntryPoints js ''assets/js'' [''.ts'', ''.js'']")
    case None
    with w0 show ?thesis by (simp add: init_def)
  next
    case (Some jsEntryPoints)
    note j = this
    show ?thesis
    proof (cases "findEntryPoints css ''assets/css'' [''.css'']")
      case None
      with j w0 show ?thesis by (simp add: init_def)
    next
      case (Some cssEntryPoints)
      obtain r w' where wa: "writeAssets esbuild True (jsEntryPoints @ cssEntryPoints) world0 = (r, w')"
        by (cases "writeAssets esbuild True (jsEntryPoints @ cssEntryPoints) world0")
      have "tree w' = last_owner esbuild (completed w')"
        using writeAssets_inv[OF w0, of True "jsEntryPoints @ cssEntryPoints"] wa by simp
      with j Some wa show ?thesis
        by (cases r) (simp_all add: init_def initWs_def console_log_def)
    qed
  qed
qed

lemma build_entry_stale:
  "esbuild (length (builds w)) (buildOptionsClone isWatch E) = Inr res \<Longrightarrow> x \<notin> set (inputs res) \<Longrightarrow>
   tree (snd (build_entry esbuild isWatch E w)) x = tree w x"
  by (simp add: build_entry_Inr)

text \<open>
  C2. The index is a function of the path, so a path has at most one owner, and at
  every point of the process that owner is the entry of the latest completed build that
  consumed the path, latest in the order in which the builds completed: this holds when
  \<^verbatim>\<open>init\<close> has run, and every call of \<^verbatim>\<open>writeAssets\<close> and every run of events keeps it,
  whatever the order in which change handlers start and their builds complete. No call
  and no event removes a path from the index. A build that does not consume \<open>x\<close> leaves
  what the index has for \<open>x\<close> as it was, so the mapping of an input that an entry no longer
  consumes stays. A build counts as completed, with the entry it was started for, when
  the bundler has accepted it: in \<^verbatim>\<open>writeAssets\<close> as soon as it was started, in a change
  handler when the handler resumes.
\<close>

theorem dependency_index_latest_owner:
  "tree (snd (init esbuild js css)) = last_owner esbuild (completed (snd (init esbuild js css))) \<and>
   (tree w = last_owner esbuild (completed w) \<longrightarrow>
      tree (snd (writeAssets esbuild isWatch entries w)) =
        last_owner esbuild (completed (snd (writeAssets esbuild isWatch entries w))) \<and>
      tree (snd (run esbuild isWatch events w)) =
        last_owner esbuild (completed (snd (run esbuild isWatch events w)))) \<and>
   dom (tree w) \<subseteq> dom (tree (snd (writeAssets esbuild isWatch entries w))) \<and>
   dom (tree w) \<subseteq> dom (tree (snd (run esbuild isWatch events w))) \<and>
   (esbuild (length (builds w)) (buildOptionsClone isWatch E) = Inr res \<and> x \<notin> set (inputs res) \<longrightarrow>
      tree (snd (build_entry esbuild isWatch E w)) x = tree w x) \<and>
   (k < length (pending w) \<and> pending w ! k = (i, E, path) \<and>
    esbuild i (buildOptionsClone isWatch E) = Inr res \<and> x \<notin> set (inputs res) \<longrightarrow>
      tree (snd (on_build_done esbuild isWatch clients k w)) x = tree w x) \<and>
   (esbuild (length (builds w)) (buildOptionsClone isWatch E) = Inr res \<longrightarrow>
      completed (snd (build_entry esbuild isWatch E w)) =
        completed w @ [(length (builds w), buildOptionsClone isWatch E)]) \<and>
   (k < length (pending w) \<and> pending w ! k = (i, E, path) \<and>
    esbuild i (buildOptionsClone isWatch E) = Inr res \<longrightarrow>
      completed (snd (on_build_done esbuild isWatch clients k w)) =
        completed w @ [(i, buildOptionsClone isWatch E)])"
proof (intro conjI impI)
  show "tree (snd (init esbuild js css)) = last_owner esbuild (completed (snd (init esbuild js css)))"
    by (rule init_inv)
  show "dom (tree w) \<subseteq> dom (tree (snd (writeAssets esbuild isWatch entries w)))"
    by (rule writeAssets_dom)
  show "dom (tree w) \<subseteq> dom (tree (snd (run esbuild isWatch events w)))"
    by (rule run_dom)
next
  assume "tree w = last_owner esbuild (completed w)"
  then show "tree (snd (writeAssets esbuild isWatch entries w)) =
        last_owner esbuild (completed (snd (writeAssets esbuild isWatch entries w)))"
    by (rule writeAssets_inv)
next
  assume "tree w = last_owner esbuild (completed w)"
  then show "tree (snd (run esbuild isWatch events w)) =
        last_owner esbuild (completed (snd (run esbuild isWatch events w)))"
    by (rule run_inv)
next
  assume "esbuild (length (builds w)) (buildOptionsClone isWatch E) = Inr res \<and> x \<notin> set (inputs res)"
  then show "tree (snd (build_entry esbuild isWatch E w)) x = tree w x"
    by (simp add: build_entry_stale)
next
  assume "k < length (pending w) \<and> pending w ! k = (i, E, path) \<and>
    esbuild i (buildOptionsClone isWatch E) = Inr res \<and> x \<notin> set (inputs res)"
  then show "tree (snd (on_build_done esbuild isWatch clients k w)) x = tree w x"
    by (simp add: on_build_done_stale)
next
  assume "esbuild (length (builds w)) (buildOptionsClone isWatch E) = Inr res"
  then show "completed (snd (build_entry esbuild isWatch E w)) =
        completed w @ [(length (builds w), buildOptionsClone isWatch E)]"
    by (simp add: build_entry_Inr)
next
  assume "k < length (pending w) \<and> pending w ! k = (i, E, path) \<and>
    esbuild i (buildOptionsClone isWatch E) = Inr res"
  then show "completed (snd (on_build_done esbuild isWatch clients k w)) =
        completed w @ [(i, buildOptionsClone isWatch E)]"
    by (simp add: on_build_done_accepted broadcast_def console_log_def)
qed

text \<open>
  Two handlers overlap: the one for \<^verbatim>\<open>a/index.css\<close> starts first, the one for
  \<^verbatim>\<open>b/index.css\<close> second; both builds consume \<^verbatim>\<open>shared.css\<close>; the second build
  completes first. The index ends with the entry of the build that completed last.
\<close>

theorem dependency_index_latest_owner_witness:
  "tree world0 = last_owner (\<lambda>i opts. Inr \<lparr>inputs = [''shared.css''], outputs = []\<rparr>) (completed world0) \<and>
   completed (snd (run (\<lambda>i opts. Inr \<lparr>inputs = [''shared.css''], outputs = []\<rparr>) True
      [Change ''a/index.css'' [], Change ''b/index.css'' [], BuildDone 1 [], BuildDone 0 []] world0))
     = [(1, buildOptionsClone True ''b/index.css''), (0, buildOptionsClone True ''a/index.css'')] \<and>
   tree (snd (run (\<lambda>i opts. Inr \<lparr>inputs = [''shared.css''], outputs = []\<rparr>) True
      [Change ''a/index.css'' [], Change ''b/index.css'' [], BuildDone 1 [], BuildDone 0 []] world0))
      ''shared.css'' = Some ''a/index.css'' \<and>
   tree (snd (run (\<lambda>i opts. Inr \<lparr>inputs = [''shared.css''], outputs = []\<rparr>) True
      [Change ''a/index.css'' [], Change ''b/index.css'' [], BuildDone 1 [], BuildDone 0 []] world0)) =
   last_owner (\<lambda>i opts. Inr \<lparr>inputs = [''shared.css''], outputs = []\<rparr>)
     (completed (snd (run (\<lambda>i opts. Inr \<lparr>inputs = [''shared.css''], outputs = []\<rparr>) True
      [Change ''a/index.css'' [], Change ''b/index.css'' [], BuildDone 1 [], BuildDone 0 []] world0)))"
proof -
  let ?b = "\<lambda>(i::nat) (opts::build_options). (Inr \<lparr>inputs = [''shared.css''], outputs = []\<rparr> :: error + metafile)"
  let ?es = "[Change ''a/index.css'' [], Change ''b/index.css'' [], BuildDone 1 [], BuildDone 0 []]"
  have w0: "tree world0 = last_owner ?b (completed world0)"
    by (simp add: world0_def fun_eq_iff)
  have sa: "endsWith ''a/index.css'' ''.css'' \<or> endsWith ''a/index.css'' ''.js'' \<or> endsWith ''a/index.css'' ''.ts''"
    by (simp add: endsWith_def)
  have sb: "endsWith ''b/index.css'' ''.css'' \<or> endsWith ''b/index.css'' ''.js'' \<or> endsWith ''b/index.css'' ''.ts''"
    by (simp add: endsWith_def)
  have r: "run ?b True ?es world0 =
    (Inr (), world0\<lparr>builds := [buildOptionsClone True ''a/index.css'', buildOptionsClone True ''b/index.css''],
       tree := [''shared.css'' \<mapsto> ''a/index.css''],
       completed := [(1, buildOptionsClone True ''b/index.css''), (0, buildOptionsClone True ''a/index.css'')],
       console := [Header Visit, Compilation [] (Some ''b/index.css'') False,
                   Header Visit, Compilation [] (Some ''a/index.css'') False]\<rparr>)"
    by (simp add: on_change_start_script[OF sa] on_change_start_script[OF sb] rootFile_def
        on_build_done_def after_build_def world0_def broadcast_def console_log_def printHeader_def
        fun_eq_iff)
  from dependency_index_latest_owner[where esbuild = ?b and w = world0 and isWatch = True and events = ?es] w0
  have "tree (snd (run ?b True ?es world0)) = last_owner ?b (completed (snd (run ?b True ?es world0)))"
    by blast
  moreover have "completed (snd (run ?b True ?es world0)) =
      [(1, buildOptionsClone True ''b/index.css''), (0, buildOptionsClone True ''a/index.css'')]"
    unfolding r by simp
  moreover have "tree (snd (run ?b True ?es world0)) ''shared.css'' = Some ''a/index.css''"
    unfolding r by simp
  ultimately show ?thesis using w0 by blast
qed

section \<open>Owners in the index are never empty\<close>

lemma build_entry_nonempty:
  "entry \<noteq> [] \<Longrightarrow> \<forall>p. tree w p \<noteq> Some [] \<Longrightarrow>
   \<forall>p. tree (snd (build_entry esbuild isWatch entry w)) p \<noteq> Some []"
  by (cases "esbuild (length (builds w)) (buildOptionsClone isWatch entry)")
     (simp_all add: build_entry_Inl build_entry_Inr)

lemma loop_nonempty:
  "[] \<notin> set entries \<Longrightarrow> \<forall>p. tree w p \<noteq> Some [] \<Longrightarrow>
   \<forall>p. tree (snd (writeAssets_loop esbuild isWatch entries results w)) p \<noteq> Some []"
proof (induction entries arbitrary: results w)
  case Nil
  then show ?case by simp
next
  case (Cons entry rest)
  obtain r w' where b: "build_entry esbuild isWatch entry w = (r, w')"
    by (cases "build_entry esbuild isWatch entry w")
  have "entry \<noteq> []" using Cons.prems(1) by auto
  from build_entry_nonempty[OF this Cons.prems(2), of esbuild isWatch] b
  have ne: "\<forall>p. tree w' p \<noteq> Some []" by simp
  show ?case
  proof (cases r)
    case (Inl e)
    with b ne show ?thesis by simp
  next
    case (Inr vals)
    have "[] \<notin> set rest" using Cons.prems by simp
    from Cons.IH[OF this ne, of "results @ vals"] b Inr show ?thesis by simp
  qed
qed

lemma writeAssets_nonempty:
  "[] \<notin> set entries \<Longrightarrow> \<forall>p. tree w p \<noteq> Some [] \<Longrightarrow>
   \<forall>p. tree (snd (writeAssets esbuild isWatch entries w)) p \<noteq> Some []"
  unfolding writeAssets_def by (rule loop_nonempty)

lemma on_change_start_nonempty:
  assumes "\<forall>p. tree w p \<noteq> Some []" and "\<forall>(i, r, path) \<in> set (pending w). r \<noteq> []"
  shows "(\<forall>p. tree (on_change_start isWatch clients path w) p \<noteq> Some []) \<and>
         (\<forall>(i, r, path) \<in> set (pending (on_change_start isWatch clients path w)). r \<noteq> [])"
  using assms
  by (auto simp: on_change_start_def Let_def broadcast_def console_log_def split: option.splits)

lemma on_build_done_nonempty:
  assumes "\<forall>p. tree w p \<noteq> Some []" and "\<forall>(i, r, path) \<in> set (pending w). r \<noteq> []"
  shows "(\<forall>p. tree (snd (on_build_done esbuild isWatch clients k w)) p \<noteq> Some []) \<and>
         (\<forall>(i, r, path) \<in> set (pending (snd (on_build_done esbuild isWatch clients k w))). r \<noteq> [])"
proof -
  have rest: "\<forall>(i, r, path) \<in> set (take k (pending w) @ drop (Suc k) (pending w)). r \<noteq> []"
    using assms(2) by (auto dest: in_set_takeD in_set_dropD)
  show ?thesis
  proof (cases rule: on_build_done_cases[of k w esbuild isWatch clients])
    case none
    with assms show ?thesis by simp
  next
    case (rejected i r path e)
    with assms(1) rest show ?thesis by simp
  next
    case (accepted i r path built)
    from accepted(1,2) have "(i, r, path) \<in> set (pending w)" by (metis nth_mem)
    with assms(2) have "r \<noteq> []" by auto
    with accepted(4) assms(1) rest show ?thesis
      by (simp add: broadcast_def console_log_def)
  qed
qed

lemma step_nonempty:
  assumes "\<forall>p. tree w p \<noteq> Some []" and "\<forall>(i, r, path) \<in> set (pending w). r \<noteq> []"
  shows "(\<forall>p. tree (snd (step esbuild isWatch e w)) p \<noteq> Some []) \<and>
         (\<forall>(i, r, path) \<in> set (pending (snd (step esbuild isWatch e w))). r \<noteq> [])"
proof (cases e)
  case (Elapse d)
  with assms show ?thesis
    by (simp add: elapse_def Let_def console_log_def split: option.splits)
next
  case Connection
  with assms show ?thesis by (simp add: on_connection_def Let_def console_log_def)
next
  case (Message parsed)
  with assms show ?thesis by (cases parsed) (simp_all add: on_message_def)
next
  case (Change path clients)
  with on_change_start_nonempty[OF assms] show ?thesis by simp
next
  case (BuildDone k clients)
  with on_build_done_nonempty[OF assms] show ?thesis by simp
qed

lemma run_nonempty:
  "\<forall>p. tree w p \<noteq> Some [] \<Longrightarrow> \<forall>(i, r, path) \<in> set (pending w). r \<noteq> [] \<Longrightarrow>
   \<forall>p. tree (snd (run esbuild isWatch es w)) p \<noteq> Some []"
proof (induction es arbitrary: w)
  case Nil
  then show ?case by simp
next
  case (Cons e es)
  obtain r w' where s: "step esbuild isWatch e w = (r, w')" by (cases "step esbuild isWatch e w")
  from step_nonempty[OF Cons.prems, of esbuild isWatch e] s
  have ne: "\<forall>p. tree w' p \<noteq> Some []" "\<forall>(i, r, path) \<in> set (pending w'). r \<noteq> []" by simp_all
  show ?case
  proof (cases r)
    case (Inl err)
    with s ne show ?thesis by simp
  next
    case (Inr u)
    with s Cons.IH[OF ne] show ?thesis by simp
  qed
qed

lemma includes_js_nonempty: "includes_js s ''index'' \<Longrightarrow> s \<noteq> []"
  by (cases s) simp_all

lemma findEntryPoints_nonempty: "findEntryPoints fs dir exts = Some eps \<Longrightarrow> [] \<notin> set eps"
  by (auto simp: findEntryPoints_def is_entry_point_def split: sum.splits dest: includes_js_nonempty)

lemma init_nonempty:
  "(\<forall>p. tree (snd (init esbuild js css)) p \<noteq> Some []) \<and> pending (snd (init esbuild js css)) = []"
proof (cases "findEntryPoints js ''assets/js'' [''.ts'', ''.js'']")
  case None
  then show ?thesis by (simp add: init_def world0_def)
next
  case (Some jsEntryPoints)
  note j = this
  show ?thesis
  proof (cases "findEntryPoints css ''assets/css'' [''.css'']")
    case None
    with j show ?thesis by (simp add: init_def world0_def)
  next
    case (Some cssEntryPoints)
    obtain r w' where wa: "writeAssets esbuild True (jsEntryPoints @ cssEntryPoints) world0 = (r, w')"
      by (cases "writeAssets esbuild True (jsEntryPoints @ cssEntryPoints) world0")
    have "[] \<notin> set (jsEntryPoints @ cssEntryPoints)"
      using findEntryPoints_nonempty[OF j] findEntryPoints_nonempty[OF Some] by simp
    then have "\<forall>p. tree w' p \<noteq> Some []"
      using writeAssets_nonempty[of "jsEntryPoints @ cssEntryPoints" world0 esbuild True] wa
      by (simp add: world0_def)
    moreover have "pending w' = []"
      using writeAssets_frame(5)[of esbuild True "jsEntryPoints @ cssEntryPoints" world0] wa
      by (simp add: world0_def)
    ultimately show ?thesis using j Some wa
      by (cases r) (simp_all add: init_def initWs_def console_log_def)
  qed
qed

lemma reachable_owners_nonempty:
  "\<forall>p. tree (snd (run esbuild True es (snd (init esbuild js css)))) p \<noteq> Some []"
  using init_nonempty[of esbuild js css] by (intro run_nonempty) simp_all

text \<open>
  C7 (as amended). For a changed path that ends in \<^verbatim>\<open>.css\<close>, \<^verbatim>\<open>.js\<close> or \<^verbatim>\<open>.ts\<close>, in
  a state whose index has no empty owner (every state the process reaches, by
  \<open>reachable_owners_nonempty\<close>): when the path neither matches the regular expression of
  the root entries nor has an owner in the index, nothing happens at all; otherwise exactly
  one build is started, that of the resolved entry, and when the bundler accepts it the
  text \<^verbatim>\<open>File changed: \<close> followed by the changed path goes once to every client whose
  socket is open; when the bundler rejects it the error is uncaught and nothing is sent.
\<close>

theorem script_change_rebuilds_owner:
  assumes "endsWith path ''.css'' \<or> endsWith path ''.js'' \<or> endsWith path ''.ts''"
    and "\<forall>p. tree w p \<noteq> Some []"
  shows "(\<not> regex_index_test path \<and> tree w path = None \<longrightarrow>
            on_change esbuild isWatch clients path w = (Inr (), w)) \<and>
         (regex_index_test path \<or> tree w path \<noteq> None \<longrightarrow>
            (\<exists>E r w'. rootFile (tree w) path = Some E \<and>
               on_change esbuild isWatch clients path w = (r, w') \<and>
               builds w' = builds w @ [buildOptionsClone isWatch E] \<and>
               (case esbuild (length (builds w)) (buildOptionsClone isWatch E) of
                  Inr res \<Rightarrow>
                    r = Inr () \<and>
                    sent w' = sent w @ map (\<lambda>c. (fst c, ''File changed: '' @ path))
                                          (filter (\<lambda>c. snd c = OPEN) clients)
                | Inl e \<Rightarrow> r = Inl e \<and> sent w' = sent w)))"
proof (intro conjI impI)
  assume "\<not> regex_index_test path \<and> tree w path = None"
  then show "on_change esbuild isWatch clients path w = (Inr (), w)"
    by (simp add: on_change_script[OF assms(1)] rootFile_def)
next
  assume a: "regex_index_test path \<or> tree w path \<noteq> None"
  then obtain E where E: "rootFile (tree w) path = Some E"
    by (cases "regex_index_test path") (auto simp: rootFile_def)
  have ne: "E \<noteq> []"
  proof (cases "regex_index_test path")
    case True
    with E have "E = path" by (simp add: rootFile_def)
    moreover from True have "path \<noteq> []" by auto
    ultimately show ?thesis by simp
  next
    case False
    with E have "tree w path = Some E" by (simp add: rootFile_def)
    with assms(2) show ?thesis by auto
  qed
  show "\<exists>E r w'. rootFile (tree w) path = Some E \<and>
               on_change esbuild isWatch clients path w = (r, w') \<and>
               builds w' = builds w @ [buildOptionsClone isWatch E] \<and>
               (case esbuild (length (builds w)) (buildOptionsClone isWatch E) of
                  Inr res \<Rightarrow>
                    r = Inr () \<and>
                    sent w' = sent w @ map (\<lambda>c. (fst c, ''File changed: '' @ path))
                                          (filter (\<lambda>c. snd c = OPEN) clients)
                | Inl e \<Rightarrow> r = Inl e \<and> sent w' = sent w)"
  proof (cases "esbuild (length (builds w)) (buildOptionsClone isWatch E)")
    case (Inl e)
    with E ne show ?thesis
      by (simp add: on_change_script[OF assms(1)] writeAssets_single_Inl)
  next
    case (Inr res)
    with E ne show ?thesis
      by (simp add: on_change_script[OF assms(1)] writeAssets_single_Inr broadcast_def console_log_def)
  qed
qed

theorem script_change_rebuilds_owner_witness:
  "(endsWith ''assets/css/style.css'' ''.css'' \<or> endsWith ''assets/css/style.css'' ''.js''
      \<or> endsWith ''assets/css/style.css'' ''.ts'') \<and>
   (\<exists>r w'. on_change (\<lambda>i opts. Inr \<lparr>inputs = [''assets/css/style.css''], outputs = []\<rparr>) True
              [(1, OPEN), (2, CLOSED)] ''assets/css/style.css''
              (world0\<lparr>tree := [''assets/css/style.css'' \<mapsto> ''assets/css/index.css'']\<rparr>) = (r, w') \<and>
      builds w' = [buildOptionsClone True ''assets/css/index.css''] \<and>
      r = Inr () \<and> sent w' = [(1, ''File changed: assets/css/style.css'')])"
proof -
  let ?w = "world0\<lparr>tree := [''assets/css/style.css'' \<mapsto> ''assets/css/index.css'']\<rparr>"
  have h1: "endsWith ''assets/css/style.css'' ''.css'' \<or> endsWith ''assets/css/style.css'' ''.js''
      \<or> endsWith ''assets/css/style.css'' ''.ts''" by (simp add: endsWith_def)
  have h2: "\<forall>p. tree ?w p \<noteq> Some []" by simp
  from script_change_rebuilds_owner[OF h1 h2,
      of "\<lambda>i opts. Inr \<lparr>inputs = [''assets/css/style.css''], outputs = []\<rparr>" True "[(1, OPEN), (2, CLOSED)]"]
  show ?thesis using h1
    by (auto simp: world0_def rootFile_def)
qed

text \<open>
  C7 as stated fails when the bundler rejects the build: the changed path has an owner and
  a client is open, one build is started, and nothing is broadcast.
\<close>

theorem script_change_build_rejected_counterexample:
  "tree (world0\<lparr>tree := [''assets/css/style.css'' \<mapsto> ''assets/css/index.css'']\<rparr>)
      ''assets/css/style.css'' = Some ''assets/css/index.css'' \<and>
   builds (snd (on_change (\<lambda>i opts. Inl BuildError) True [(1, OPEN)]
      ''assets/css/style.css''
      (world0\<lparr>tree := [''assets/css/style.css'' \<mapsto> ''assets/css/index.css'']\<rparr>)))
     = [buildOptionsClone True ''assets/css/index.css''] \<and>
   sent (snd (on_change (\<lambda>i opts. Inl BuildError) True [(1, OPEN)]
      ''assets/css/style.css''
      (world0\<lparr>tree := [''assets/css/style.css'' \<mapsto> ''assets/css/index.css'']\<rparr>))) = []"
proof -
  have h1: "endsWith ''assets/css/style.css'' ''.css'' \<or> endsWith ''assets/css/style.css'' ''.js''
      \<or> endsWith ''assets/css/style.css'' ''.ts''" by (simp add: endsWith_def)
  show ?thesis
    by (simp add: on_change_script[OF h1] rootFile_def writeAssets_single_Inl world0_def)
qed

section \<open>Client messages\<close>

text \<open>
  C8 (as amended). A message whose text is not JSON makes \<^verbatim>\<open>JSON.parse\<close> throw, and the
  error leaves the handler uncaught with the session as it was. A message that parses to a
  value other than \<^verbatim>\<open>null\<close> replaces the session by the three properties read from
  that value, whatever the session was before. A message that parses to \<^verbatim>\<open>null\<close> is an
  uncaught TypeError and leaves the session as it was.
\<close>

theorem client_message_replaces_session:
  "on_message (Inl e) w = (Inl e, w) \<and>
   on_message (Inr JNull) w = (Inl TypeError, w) \<and>
   (v \<noteq> JNull \<longrightarrow>
      on_message (Inr v) w =
        (Inr (), w\<lparr>siteData := Some \<lparr>url = get_prop v ''url'', title = get_prop v ''title'',
                                       version = get_prop v ''version''\<rparr>\<rparr>) \<and>
      siteData (snd (on_message (Inr v) (w\<lparr>siteData := old\<rparr>))) =
        siteData (snd (on_message (Inr v) w)))"
  by (simp add: on_message_def)

theorem client_message_replaces_session_witness:
  "JObj [(''url'', JStr ''http://localhost:2368/''), (''title'', JStr ''Blog''),
         (''version'', JStr ''Ghost 5.82'')] \<noteq> JNull \<and>
   siteData (snd (on_message
     (Inr (JObj [(''url'', JStr ''http://localhost:2368/''), (''title'', JStr ''Blog''),
                 (''version'', JStr ''Ghost 5.82'')]))
     (world0\<lparr>siteData := Some \<lparr>url = Some (JStr ''old''), title = None, version = None\<rparr>\<rparr>)))
   = Some \<lparr>url = Some (JStr ''http://localhost:2368/''), title = Some (JStr ''Blog''),
           version = Some (JStr ''Ghost 5.82'')\<rparr>"
  using client_message_replaces_session[of _ "world0\<lparr>siteData := Some \<lparr>url = Some (JStr ''old''), title = None, version = None\<rparr>\<rparr>"
      "JObj [(''url'', JStr ''http://localhost:2368/''), (''title'', JStr ''Blog''),
         (''version'', JStr ''Ghost 5.82'')]"]
  by simp

text \<open>
  C8 as stated fails for the message \<^verbatim>\<open>null\<close>: it parses as JSON, and the session is
  not replaced; the handler throws.
\<close>

theorem client_message_null_counterexample:
  "on_message (Inr JNull)
     (world0\<lparr>siteData := Some \<lparr>url = Some (JStr ''old''), title = None, version = None\<rparr>\<rparr>)
   = (Inl TypeError,
      world0\<lparr>siteData := Some \<lparr>url = Some (JStr ''old''), title = None, version = None\<rparr>\<rparr>)"
  by (simp add: on_message_def)

section \<open>The root entries of the router and of discovery\<close>

lemma regex_index_test_suffix:
  "regex_index_test path \<longleftrightarrow>
     (\<exists>t \<in> set [''index.css'', ''index.js'', ''index.ts'']. suffix t path)"
  by (induction path) (auto simp: suffix_Cons)

lemma suffix_index_includes:
  assumes "suffix t path" "t \<in> set [''index.css'', ''index.js'', ''index.ts'']"
  shows "includes_js path ''index''"
proof -
  from assms(1) obtain zs where p: "path = zs @ t" by (auto simp: suffix_def)
  from assms(2) obtain ext where "t = ''index'' @ ext" by auto
  with p have "path = zs @ ''index'' @ ext" by simp
  then show ?thesis unfolding includes_js_sublist sublist_def by blast
qed

lemma suffix_index_ext:
  "suffix ''index.css'' path \<Longrightarrow> suffix ''.css'' path"
  "suffix ''index.js'' path \<Longrightarrow> suffix ''.js'' path"
  "suffix ''index.ts'' path \<Longrightarrow> suffix ''.ts'' path"
proof -
  have "suffix ''.css'' ''index.css''" "suffix ''.js'' ''index.js''" "suffix ''.ts'' ''index.ts''"
    by (simp_all add: suffix_def)
  then show "suffix ''index.css'' path \<Longrightarrow> suffix ''.css'' path"
    "suffix ''index.js'' path \<Longrightarrow> suffix ''.js'' path"
    "suffix ''index.ts'' path \<Longrightarrow> suffix ''.ts'' path"
    using suffix_order.trans by blast+
qed

lemma regex_index_test_script:
  assumes "regex_index_test path"
  shows "endsWith path ''.css'' \<or> endsWith path ''.js'' \<or> endsWith path ''.ts''" and "path \<noteq> []"
proof -
  from assms obtain t where t: "t \<in> set [''index.css'', ''index.js'', ''index.ts'']" "suffix t path"
    unfolding regex_index_test_suffix by blast
  from t suffix_index_ext[of path]
  show "endsWith path ''.css'' \<or> endsWith path ''.js'' \<or> endsWith path ''.ts''"
    by (auto simp: endsWith_suffix)
  from assms show "path \<noteq> []" by auto
qed

text \<open>
  C10. The router takes a changed path as its own entry exactly when the path ends with
  \<^verbatim>\<open>index.css\<close>, \<^verbatim>\<open>index.js\<close> or \<^verbatim>\<open>index.ts\<close>: such a path resolves to itself, and
  the handler starts the build of the path itself. Any other script or style path is
  looked up in the index: the build that is started is that of its owner there, and the
  event is dropped when the index has nothing for it. Every path the router takes as an
  entry passes the test of discovery, and \<^verbatim>\<open>assets/js/index-helpers.js\<close> passes the test
  of discovery and is not an entry for the router.
\<close>

theorem router_root_entry_narrower:
  "(regex_index_test path \<longleftrightarrow>
      endsWith path ''index.css'' \<or> endsWith path ''index.js'' \<or> endsWith path ''index.ts'') \<and>
   (regex_index_test path \<longrightarrow>
      rootFile (tree w) path = Some path \<and>
      (\<exists>r w'. on_change esbuild isWatch clients path w = (r, w') \<and>
               builds w' = builds w @ [buildOptionsClone isWatch path]) \<and>
      on_change_start isWatch clients path w =
        w\<lparr>builds := builds w @ [buildOptionsClone isWatch path],
          pending := pending w @ [(length (builds w), path, path)]\<rparr>) \<and>
   ((endsWith path ''.css'' \<or> endsWith path ''.js'' \<or> endsWith path ''.ts'') \<and>
    \<not> regex_index_test path \<longrightarrow>
      rootFile (tree w) path = tree w path \<and>
      (tree w path = None \<longrightarrow>
         on_change esbuild isWatch clients path w = (Inr (), w) \<and>
         on_change_start isWatch clients path w = w) \<and>
      (\<forall>E. tree w path = Some E \<and> E \<noteq> [] \<longrightarrow>
         (\<exists>r w'. on_change esbuild isWatch clients path w = (r, w') \<and>
                  builds w' = builds w @ [buildOptionsClone isWatch E]) \<and>
         on_change_start isWatch clients path w =
           w\<lparr>builds := builds w @ [buildOptionsClone isWatch E],
             pending := pending w @ [(length (builds w), E, path)]\<rparr>)) \<and>
   (regex_index_test path \<longrightarrow>
      is_entry_point [''.ts'', ''.js''] path \<or> is_entry_point [''.css''] path) \<and>
   is_entry_point [''.ts'', ''.js''] ''assets/js/index-helpers.js'' \<and>
   \<not> regex_index_test ''assets/js/index-helpers.js''"
proof -
  have c1: "regex_index_test path \<longleftrightarrow>
      endsWith path ''index.css'' \<or> endsWith path ''index.js'' \<or> endsWith path ''index.ts''"
    by (simp add: regex_index_test_suffix endsWith_suffix)
  have c2: "rootFile (tree w) path = Some path \<and>
      (\<exists>r w'. on_change esbuild isWatch clients path w = (r, w') \<and>
               builds w' = builds w @ [buildOptionsClone isWatch path]) \<and>
      on_change_start isWatch clients path w =
        w\<lparr>builds := builds w @ [buildOptionsClone isWatch path],
          pending := pending w @ [(length (builds w), path, path)]\<rparr>" if m: "regex_index_test path"
  proof -
    note sc = regex_index_test_script[OF m]
    have rf: "rootFile (tree w) path = Some path" using m by (simp add: rootFile_def)
    from on_change_resolved[OF sc(1) rf sc(2)] rf sc(2) show ?thesis
      by (simp add: on_change_start_script[OF sc(1)])
  qed
  have c3: "rootFile (tree w) path = tree w path \<and>
      (tree w path = None \<longrightarrow>
         on_change esbuild isWatch clients path w = (Inr (), w) \<and>
         on_change_start isWatch clients path w = w) \<and>
      (\<forall>E. tree w path = Some E \<and> E \<noteq> [] \<longrightarrow>
         (\<exists>r w'. on_change esbuild isWatch clients path w = (r, w') \<and>
                  builds w' = builds w @ [buildOptionsClone isWatch E]) \<and>
         on_change_start isWatch clients path w =
           w\<lparr>builds := builds w @ [buildOptionsClone isWatch E],
             pending := pending w @ [(length (builds w), E, path)]\<rparr>)"
    if a: "(endsWith path ''.css'' \<or> endsWith path ''.js'' \<or> endsWith path ''.ts'') \<and>
       \<not> regex_index_test path"
  proof (intro conjI impI allI)
    from a have sc: "endsWith path ''.css'' \<or> endsWith path ''.js'' \<or> endsWith path ''.ts''" by simp
    from a show rf: "rootFile (tree w) path = tree w path" by (simp add: rootFile_def)
    {
      assume n: "tree w path = None"
      with rf show "on_change esbuild isWatch clients path w = (Inr (), w)"
        by (simp add: on_change_script[OF sc])
      from n rf show "on_change_start isWatch clients path w = w"
        by (simp add: on_change_start_script[OF sc])
    }
    {
      fix E assume e: "tree w path = Some E \<and> E \<noteq> []"
      with rf have r: "rootFile (tree w) path = Some E" "E \<noteq> []" by simp_all
      from on_change_resolved[OF sc r]
      show "\<exists>r w'. on_change esbuild isWatch clients path w = (r, w') \<and>
                  builds w' = builds w @ [buildOptionsClone isWatch E]" .
      from r show "on_change_start isWatch clients path w =
           w\<lparr>builds := builds w @ [buildOptionsClone isWatch E],
             pending := pending w @ [(length (builds w), E, path)]\<rparr>"
        by (simp add: on_change_start_script[OF sc])
    }
  qed
  have c4: "is_entry_point [''.ts'', ''.js''] path \<or> is_entry_point [''.css''] path"
    if m: "regex_index_test path"
  proof -
    from m obtain t where t: "t \<in> set [''index.css'', ''index.js'', ''index.ts'']" "suffix t path"
      unfolding regex_index_test_suffix by blast
    from suffix_index_includes[OF t(2) t(1)] have i: "includes_js path ''index''" .
    with regex_index_test_script(1)[OF m] show ?thesis
      by (auto simp: is_entry_point_def)
  qed
  have c5: "is_entry_point [''.ts'', ''.js''] ''assets/js/index-helpers.js''"
    by (simp add: is_entry_point_def endsWith_def)
  have c6: "\<not> regex_index_test ''assets/js/index-helpers.js''"
    by simp
  from c1 c2 c3 c4 c5 c6 show ?thesis by blast
qed

theorem router_root_entry_narrower_witness:
  "(endsWith ''assets/js/index-helpers.js'' ''.css'' \<or> endsWith ''assets/js/index-helpers.js'' ''.js''
      \<or> endsWith ''assets/js/index-helpers.js'' ''.ts'') \<and>
   \<not> regex_index_test ''assets/js/index-helpers.js'' \<and>
   tree world0 ''assets/js/index-helpers.js'' = None \<and>
   on_change (\<lambda>i opts. Inl BuildError) True [(1, OPEN)] ''assets/js/index-helpers.js'' world0
     = (Inr (), world0) \<and>
   regex_index_test ''assets/js/index.ts'' \<and>
   rootFile (tree world0) ''assets/js/index.ts'' = Some ''assets/js/index.ts'' \<and>
   (\<exists>r w'. on_change (\<lambda>i opts. Inl BuildError) True [] ''assets/js/index.ts'' world0 = (r, w') \<and>
            builds w' = builds world0 @ [buildOptionsClone True ''assets/js/index.ts'']) \<and>
   (is_entry_point [''.ts'', ''.js''] ''assets/js/index.ts'' \<or> is_entry_point [''.css''] ''assets/js/index.ts'')"
proof -
  have h: "endsWith ''assets/js/index-helpers.js'' ''.css'' \<or> endsWith ''assets/js/index-helpers.js'' ''.js''
      \<or> endsWith ''assets/js/index-helpers.js'' ''.ts''" by (simp add: endsWith_def)
  have n: "\<not> regex_index_test ''assets/js/index-helpers.js''" by simp
  have t: "tree world0 ''assets/js/index-helpers.js'' = None" by (simp add: world0_def)
  have r: "regex_index_test ''assets/js/index.ts''" by simp
  from router_root_entry_narrower[of "''assets/js/index-helpers.js''" world0 "\<lambda>i opts. Inl BuildError" True "[(1, OPEN)]"] h n t
  have a: "on_change (\<lambda>i opts. Inl BuildError) True [(1, OPEN)] ''assets/js/index-helpers.js'' world0
     = (Inr (), world0)" by blast
  from router_root_entry_narrower[of "''assets/js/index.ts''" world0 "\<lambda>i opts. Inl BuildError" True "[]"] r
  have b: "is_entry_point [''.ts'', ''.js''] ''assets/js/index.ts'' \<or> is_entry_point [''.css''] ''assets/js/index.ts''"
    and c: "rootFile (tree world0) ''assets/js/index.ts'' = Some ''assets/js/index.ts''"
    and d: "\<exists>r w'. on_change (\<lambda>i opts. Inl BuildError) True [] ''assets/js/index.ts'' world0 = (r, w') \<and>
            builds w' = builds world0 @ [buildOptionsClone True ''assets/js/index.ts'']"
    by blast+
  from h n t a b c d r show ?thesis by blast
qed

section \<open>The connection timer\<close>

lemma printHeader_no_error:
  "printHeader False f sd \<noteq> NoConnection" "NoConnection \<noteq> printHeader False f sd"
  by (simp_all add: printHeader_def)

lemma on_change_start_frame:
  "int_timer (on_change_start isWatch clients path w) = int_timer w \<and>
   now (on_change_start isWatch clients path w) = now w \<and>
   (\<exists>ls. console (on_change_start isWatch clients path w) = console w @ ls \<and>
         Header NoConnection \<notin> set ls)"
  by (auto simp: on_change_start_def Let_def broadcast_def console_log_def printHeader_no_error
           split: option.splits)

lemma on_build_done_frame:
  "int_timer (snd (on_build_done esbuild isWatch clients k w)) = int_timer w \<and>
   now (snd (on_build_done esbuild isWatch clients k w)) = now w \<and>
   (\<exists>ls. console (snd (on_build_done esbuild isWatch clients k w)) = console w @ ls \<and>
         Header NoConnection \<notin> set ls)"
proof (cases rule: on_build_done_cases[of k w esbuild isWatch clients])
  case none
  then show ?thesis by simp
next
  case (rejected i r path e)
  then show ?thesis by simp
next
  case (accepted i r path built)
  from accepted(4) show ?thesis
    by (simp add: broadcast_def console_log_def printHeader_no_error)
qed

lemma step_frame:
  "\<exists>ls. console (snd (step esbuild isWatch e w)) = console w @ ls \<and>
     (Header NoConnection \<in> set ls \<longrightarrow>
        (\<exists>d due. e = Elapse d \<and> int_timer w = Some due \<and> due \<le> now w + d)) \<and>
     ((\<exists>d due. e = Elapse d \<and> int_timer w = Some due \<and> due \<le> now w + d) \<longrightarrow>
        Header NoConnection \<in> set ls) \<and>
     (int_timer (snd (step esbuild isWatch e w)) = None \<or>
      int_timer (snd (step esbuild isWatch e w)) = int_timer w) \<and>
     (e = Connection \<longrightarrow> int_timer (snd (step esbuild isWatch e w)) = None) \<and>
     (e \<noteq> Connection \<and> \<not> (\<exists>d due. e = Elapse d \<and> int_timer w = Some due \<and> due \<le> now w + d) \<longrightarrow>
        int_timer (snd (step esbuild isWatch e w)) = int_timer w) \<and>
     now (snd (step esbuild isWatch e w)) = now w + elapsed [e]"
proof (cases e)
  case (Elapse d)
  then show ?thesis
    by (cases "int_timer w")
       (auto simp: elapse_def Let_def console_log_def printHeader_def)
next
  case Connection
  then show ?thesis
    by (simp add: on_connection_def Let_def console_log_def printHeader_no_error)
next
  case (Message parsed)
  then show ?thesis
    by (cases parsed) (simp_all add: on_message_def)
next
  case (Change path clients)
  then show ?thesis
    using on_change_start_frame[of isWatch clients path w] by auto
next
  case (BuildDone k clients)
  then show ?thesis
    using on_build_done_frame[of esbuild isWatch clients k w] by auto
qed

lemma run_append:
  "run esbuild isWatch (xs @ ys) w =
     (case run esbuild isWatch xs w of
        (Inl err, w') \<Rightarrow> (Inl err, w')
      | (Inr u, w') \<Rightarrow> run esbuild isWatch ys w')"
  by (induction xs arbitrary: w) (auto split: prod.splits sum.splits)

lemma run_console_mono:
  "set (console w) \<subseteq> set (console (snd (run esbuild isWatch es w)))"
proof (induction es arbitrary: w)
  case Nil
  show ?case by simp
next
  case (Cons e es)
  obtain r w' where s: "step esbuild isWatch e w = (r, w')" by (cases "step esbuild isWatch e w")
  from step_frame[of esbuild isWatch e w] s have m: "set (console w) \<subseteq> set (console w')" by auto
  show ?case
  proof (cases r)
    case (Inl err)
    with s m show ?thesis by simp
  next
    case (Inr u)
    with s m Cons.IH[of w'] show ?thesis by auto
  qed
qed

lemma cancelled_never_shown:
  "Header NoConnection \<notin> set (console w) \<Longrightarrow> int_timer w = None \<Longrightarrow>
   Header NoConnection \<notin> set (console (snd (run esbuild isWatch es w)))"
proof (induction es arbitrary: w)
  case Nil
  then show ?case by simp
next
  case (Cons e es)
  obtain r w' where s: "step esbuild isWatch e w = (r, w')" by (cases "step esbuild isWatch e w")
  from step_frame[of esbuild isWatch e w] s Cons.prems
  have k: "Header NoConnection \<notin> set (console w')" "int_timer w' = None" by auto
  show ?case
  proof (cases r)
    case (Inl err)
    with s k show ?thesis by simp
  next
    case (Inr u)
    with s Cons.IH[OF k] show ?thesis by simp
  qed
qed

lemma connected_in_time_never_shown:
  "Header NoConnection \<notin> set (console w) \<Longrightarrow>
   int_timer w = None \<or> (\<exists>due. int_timer w = Some due \<and> now w + elapsed pre < due) \<Longrightarrow>
   Header NoConnection \<notin> set (console (snd (run esbuild isWatch (pre @ Connection # post) w)))"
proof (induction pre arbitrary: w)
  case Nil
  obtain r w' where s: "step esbuild isWatch Connection w = (r, w')"
    by (cases "step esbuild isWatch Connection w")
  from step_frame[of esbuild isWatch Connection w] s Nil.prems
  have k: "Header NoConnection \<notin> set (console w')" "int_timer w' = None" by auto
  from s have "r = Inr ()" by simp
  with s cancelled_never_shown[OF k, of esbuild isWatch post] show ?case by simp
next
  case (Cons e pre)
  obtain r w' where s: "step esbuild isWatch e w = (r, w')" by (cases "step esbuild isWatch e w")
  have el: "elapsed (e # pre) = elapsed [e] + elapsed pre" by (cases e) simp_all
  from step_frame[of esbuild isWatch e w] s Cons.prems el
  have k: "Header NoConnection \<notin> set (console w')"
    "int_timer w' = None \<or> (\<exists>due. int_timer w' = Some due \<and> now w' + elapsed pre < due)"
    by auto
  show ?case
  proof (cases r)
    case (Inl err)
    with s k show ?thesis by simp
  next
    case (Inr u)
    with s Cons.IH[OF k] show ?thesis by simp
  qed
qed

lemma unconnected_shown:
  "Header NoConnection \<in> set (console w) \<or>
     (\<exists>due. int_timer w = Some due \<and> now w < due \<and> due \<le> now w + elapsed pre) \<Longrightarrow>
   Connection \<notin> set pre \<Longrightarrow> fst (run esbuild isWatch pre w) = Inr () \<Longrightarrow>
   Header NoConnection \<in> set (console (snd (run esbuild isWatch pre w)))"
proof (induction pre arbitrary: w)
  case Nil
  then show ?case by auto
next
  case (Cons e pre)
  obtain r w' where s: "step esbuild isWatch e w = (r, w')" by (cases "step esbuild isWatch e w")
  have el: "elapsed (e # pre) = elapsed [e] + elapsed pre" by (cases e) simp_all
  from Cons.prems(3) s have r: "r = Inr ()" by (cases r) simp_all
  from Cons.prems(2) have ne: "e \<noteq> Connection" "Connection \<notin> set pre" by auto
  have el1: "(\<exists>d. e = Elapse d \<and> elapsed [e] = d) \<or> elapsed [e] = 0" by (cases e) simp_all
  from step_frame[of esbuild isWatch e w] s Cons.prems(1) el el1 ne(1)
  have k: "Header NoConnection \<in> set (console w') \<or>
     (\<exists>due. int_timer w' = Some due \<and> now w' < due \<and> due \<le> now w' + elapsed pre)"
    by (cases "\<exists>d due. e = Elapse d \<and> int_timer w = Some due \<and> due \<le> now w + d") auto
  from Cons.prems(3) s r have ok: "fst (run esbuild isWatch pre w') = Inr ()" by simp
  from Cons.IH[OF k ne(2) ok] s r show ?case by simp
qed

text \<open>
  C9. Time is the clock of the state, advanced by the events \<open>Elapse\<close>; the run starts in
  the state \<^verbatim>\<open>initWs\<close> leaves, with the timer due 5000 ms later. When the events before
  the first connection take less than 5000 ms, the header with the connection error is
  never printed, whatever follows. When 5000 ms or more pass without a connection, and no
  uncaught error has ended the run before, that header has been printed, and it stays
  printed. A connection cancels the timer.
\<close>

theorem connection_timer:
  assumes "Header NoConnection \<notin> set (console w)"
  shows "(elapsed pre < 5000 \<longrightarrow>
            Header NoConnection \<notin>
              set (console (snd (run esbuild isWatch (pre @ Connection # post) (initWs res w))))) \<and>
         (Connection \<notin> set pre \<and> 5000 \<le> elapsed pre \<and>
          fst (run esbuild isWatch pre (initWs res w)) = Inr () \<longrightarrow>
            Header NoConnection \<in> set (console (snd (run esbuild isWatch pre (initWs res w)))) \<and>
            (fst (run esbuild isWatch (pre @ post) (initWs res w)) = Inr () \<longrightarrow>
               Header NoConnection \<in>
                 set (console (snd (run esbuild isWatch (pre @ post) (initWs res w)))))) \<and>
         int_timer (initWs res w) = Some (now w + 5000) \<and>
         int_timer (on_connection w) = None"
proof (intro conjI impI)
  have c0: "Header NoConnection \<notin> set (console (initWs res w))"
    using assms by (simp add: initWs_def console_log_def printHeader_no_error)
  have t0: "int_timer (initWs res w) = Some (now w + 5000)" "now (initWs res w) = now w"
    by (simp_all add: initWs_def console_log_def)
  show "int_timer (initWs res w) = Some (now w + 5000)" by (rule t0)
  show "int_timer (on_connection w) = None"
    by (simp add: on_connection_def Let_def console_log_def)
  {
    assume "elapsed pre < 5000"
    then have "int_timer (initWs res w) = None \<or>
      (\<exists>due. int_timer (initWs res w) = Some due \<and> now (initWs res w) + elapsed pre < due)"
      using t0 by simp
    from connected_in_time_never_shown[OF c0 this]
    show "Header NoConnection \<notin>
              set (console (snd (run esbuild isWatch (pre @ Connection # post) (initWs res w))))" .
  }
  {
    assume a: "Connection \<notin> set pre \<and> 5000 \<le> elapsed pre \<and>
          fst (run esbuild isWatch pre (initWs res w)) = Inr ()"
    then have "Header NoConnection \<in> set (console (initWs res w)) \<or>
      (\<exists>due. int_timer (initWs res w) = Some due \<and> now (initWs res w) < due \<and>
             due \<le> now (initWs res w) + elapsed pre)"
      using t0 by simp
    from unconnected_shown[OF this] a
    show shown: "Header NoConnection \<in> set (console (snd (run esbuild isWatch pre (initWs res w))))"
      by simp
    assume "fst (run esbuild isWatch (pre @ post) (initWs res w)) = Inr ()"
    obtain r w1 where r1: "run esbuild isWatch pre (initWs res w) = (r, w1)"
      by (cases "run esbuild isWatch pre (initWs res w)")
    with a have "r = Inr ()" by simp
    with r1 have "run esbuild isWatch (pre @ post) (initWs res w) = run esbuild isWatch post w1"
      by (simp add: run_append)
    moreover from shown r1 have "Header NoConnection \<in> set (console w1)" by simp
    ultimately show "Header NoConnection \<in>
                 set (console (snd (run esbuild isWatch (pre @ post) (initWs res w))))"
      using run_console_mono[of w1 esbuild isWatch post] by auto
  }
qed

theorem connection_timer_witness:
  "Header NoConnection \<notin> set (console world0) \<and>
   elapsed [Elapse 2000] < 5000 \<and>
   Header NoConnection \<notin> set (console (snd (run (\<lambda>i opts. Inl BuildError) True
       ([Elapse 2000] @ Connection # [Elapse 4000]) (initWs [] world0)))) \<and>
   Connection \<notin> set [Elapse 3000, Elapse 2000] \<and>
   5000 \<le> elapsed [Elapse 3000, Elapse 2000] \<and>
   fst (run (\<lambda>i opts. Inl BuildError) True [Elapse 3000, Elapse 2000] (initWs [] world0)) = Inr () \<and>
   Header NoConnection \<in> set (console (snd (run (\<lambda>i opts. Inl BuildError) True
       [Elapse 3000, Elapse 2000] (initWs [] world0))))"
proof -
  have c: "Header NoConnection \<notin> set (console world0)" by (simp add: world0_def)
  have e1: "elapsed [Elapse 2000] < 5000" by simp
  have e2: "Connection \<notin> set [Elapse 3000, Elapse 2000]" "5000 \<le> elapsed [Elapse 3000, Elapse 2000]"
    "fst (run (\<lambda>i opts. Inl BuildError) True [Elapse 3000, Elapse 2000] (initWs [] world0)) = Inr ()"
    by simp_all
  from connection_timer[OF c, of "[Elapse 2000]" "\<lambda>i opts. Inl BuildError" True "[Elapse 4000]" "[]"] e1
  have a: "Header NoConnection \<notin> set (console (snd (run (\<lambda>i opts. Inl BuildError) True
       ([Elapse 2000] @ Connection # [Elapse 4000]) (initWs [] world0))))" by blast
  from connection_timer[OF c, of "[Elapse 3000, Elapse 2000]" "\<lambda>i opts. Inl BuildError" True "[]" "[]"] e2
  have b: "Header NoConnection \<in> set (console (snd (run (\<lambda>i opts. Inl BuildError) True
       [Elapse 3000, Elapse 2000] (initWs [] world0))))" by blast
  from c e1 e2 a b show ?thesis by blast
qed

section \<open>Entry point discovery\<close>

lemma join_examples:
  "join ''assets/js'' ''index.js'' = ''assets/js/index.js''"
  "join ''assets/js'' ''index-utils'' = ''assets/js/index-utils''"
  "join ''assets/js'' ''util.js'' = ''assets/js/util.js''"
  "join ''assets/js/index-utils'' ''helper.js'' = ''assets/js/index-utils/helper.js''"
  by (simp_all add: join_def normalize_def Let_def)

text \<open>
  C3. Discovery does not return exactly the files whose base name contains \<^verbatim>\<open>index\<close>:
  its filter tests \<^verbatim>\<open>file.includes("index")\<close> on the full path. Under \<^verbatim>\<open>assets/js\<close> with
  the files \<^verbatim>\<open>index.js\<close>, \<^verbatim>\<open>index-utils/helper.js\<close> and \<^verbatim>\<open>util.js\<close>, it returns
  \<^verbatim>\<open>assets/js/index-utils/helper.js\<close> beside \<^verbatim>\<open>assets/js/index.js\<close>, although the base
  name of the former, \<^verbatim>\<open>helper.js\<close>, does not contain \<^verbatim>\<open>index\<close>: the directory above it
  does.
\<close>

theorem findEntryPoints_takes_file_below_index_directory:
  "findEntryPoints
     (Dir [(''index.js'', File), (''index-utils'', Dir [(''helper.js'', File)]), (''util.js'', File)])
     ''assets/js'' [''.ts'', ''.js'']
     = Some [''assets/js/index.js'', ''assets/js/index-utils/helper.js''] \<and>
   basename ''assets/js/index-utils/helper.js'' = ''helper.js'' \<and>
   \<not> includes_js ''helper.js'' ''index'' \<and>
   endsWith ''helper.js'' ''.js''"
  by (simp add: findEntryPoints_def findFilesRecursively_def join_examples endsWith_def
      basename_def is_entry_point_def)

end
